theory Spec2Isabelle
  imports Main
begin

section \<open>Values, task sets and the executor's state\<close>

text \<open>
  The module \<^verbatim>\<open>src/lib/index.ts\<close> exports \<^verbatim>\<open>all\<close> and \<^verbatim>\<open>allSettled\<close>; both call
  \<^verbatim>\<open>executeTasksInternal(tasks, handleSettled)\<close>.  Task names are property names
  (strings).

  The JavaScript values that tasks return and throw, as far as the executor tells them
  apart: a primitive value other than \<^verbatim>\<open>null\<close>; \<^verbatim>\<open>null\<close>; an object that is not a
  function; a function; and \<^verbatim>\<open>new Error(msg)\<close>, a plain \<^verbatim>\<open>Error\<close> whose only payload is
  its message.  Primitives and objects are taken from a type parameter.  The objects and
  functions are ordinary ones: they inherit from \<^verbatim>\<open>Object.prototype\<close>, have no \<^verbatim>\<open>then\<close>
  method of their own (a value that \<^verbatim>\<open>await\<close> yields is not a thenable), and no setter or
  read-only property at the name of a task.  Of a function the model keeps what it does when
  it is called with the two resolving functions of a promise, as the \<^verbatim>\<open>then\<close> method of
  a thenable is: nothing, or a call of the first or of the second with a primitive value.
\<close>

type_synonym name = string

datatype 'v reaction = Ignores | Resolves 'v | Rejects 'v

datatype 'v jsval = Plain 'v | Null | Obj 'v | Fn "'v reaction" | NewError string

text \<open>The state of a promise: pending, or settled one way or the other.\<close>

datatype 'v outcome = Fulfilled "'v jsval" | Rejected "'v jsval"

type_synonym 'v promise = "'v outcome option"

text \<open>
  What calling a task function does, seen from the executor: it returns or throws, it
  reads \<^verbatim>\<open>this.$.dep\<close> (the proxy's \<^verbatim>\<open>get\<close> trap, which yields a promise, here the
  index of the promise in the state), it awaits such a promise (the continuation receives
  how the promise settled, so a \<^verbatim>\<open>try/catch\<close> around the \<^verbatim>\<open>await\<close> is a continuation
  that does not rethrow), or it awaits some asynchronous operation of its own.
\<close>

datatype 'v body =
    Return "'v jsval"
  | Throw "'v jsval"
  | Get name "nat \<Rightarrow> 'v body"
  | Await nat "'v outcome \<Rightarrow> 'v body"
  | Pause "'v body"

text \<open>An entry of the task set: \<^verbatim>\<open>typeof taskFn !== 'function'\<close> or a function.\<close>

datatype 'v entry = NotCallable | Callable "'v body"

text \<open>
  The task set is a JavaScript object: its own enumerable properties, in the order in which
  \<^verbatim>\<open>Object.keys\<close> lists them, and the property names it inherits through its prototype
  chain.  \<^verbatim>\<open>Object.keys\<close> lists the own names, each once; \<^verbatim>\<open>tasks[name]\<close> reads the
  own property; the operator \<^verbatim>\<open>in\<close> also sees the inherited names.
\<close>

record 'v taskset =
  own :: "(name \<times> 'v entry) list"
  inherited :: "name list"

definition Object_keys :: "'v taskset \<Rightarrow> name list" where
  "Object_keys tasks = remdups (map fst (own tasks))"

definition in_op :: "name \<Rightarrow> 'v taskset \<Rightarrow> bool" where
  "in_op depName tasks \<longleftrightarrow> depName \<in> set (map fst (own tasks)) \<or> depName \<in> set (inherited tasks)"

text \<open>The names an ordinary object inherits from \<^verbatim>\<open>Object.prototype\<close>.\<close>

definition Object_prototype :: "name list" where
  "Object_prototype =
     [''constructor'', ''__defineGetter__'', ''__defineSetter__'', ''hasOwnProperty'',
      ''__lookupGetter__'', ''__lookupSetter__'', ''isPrototypeOf'', ''propertyIsEnumerable'',
      ''toString'', ''valueOf'', ''__proto__'', ''toLocaleString'']"

text \<open>
  The order of the own properties of an ordinary object: the names that are array indices
  (the decimal numerals of the integers below \<^verbatim>\<open>2 ** 32 - 1\<close>, written without a
  leading zero) come first, in ascending order, and the other names follow in the order in
  which the properties were created.
\<close>

definition digit_value :: "char \<Rightarrow> nat option" where
  "digit_value = map_of (zip ''0123456789'' [0, 1, 2, 3, 4, 5, 6, 7, 8, 9])"

fun decimal :: "nat \<Rightarrow> string \<Rightarrow> nat option" where
  "decimal n [] = Some n"
| "decimal n (c # cs) =
     (case digit_value c of None \<Rightarrow> None | Some d \<Rightarrow> decimal (10 * n + d) cs)"

definition array_index :: "name \<Rightarrow> nat option" where
  "array_index s =
     (if s = [] \<or> (hd s = CHR ''0'' \<and> s \<noteq> ''0'') then None
      else case decimal 0 s of
             None \<Rightarrow> None
           | Some n \<Rightarrow> if n < 4294967295 then Some n else None)"

definition own_property_order :: "(name \<times> 'a) list \<Rightarrow> (name \<times> 'a) list" where
  "own_property_order ps =
     sort_key (\<lambda>p. the (array_index (fst p))) (filter (\<lambda>p. array_index (fst p) \<noteq> None) ps)
     @ filter (\<lambda>p. array_index (fst p) = None) ps"

text \<open>
  Creating a data property: a name that the object has already keeps its place and takes
  the new value; a new name comes last.
\<close>

fun create_property :: "name \<Rightarrow> 'a \<Rightarrow> (name \<times> 'a) list \<Rightarrow> (name \<times> 'a) list" where
  "create_property k v [] = [(k, v)]"
| "create_property k v ((k', v') # ps) =
     (if k' = k then (k, v) # ps else (k', v') # create_property k v ps)"

text \<open>
  The task set that is an ordinary object with the given own enumerable data properties,
  created one after the other in the order of the list, as \<^verbatim>\<open>Object.fromEntries\<close> or
  \<^verbatim>\<open>JSON.parse\<close> create them; \<^verbatim>\<open>__proto__\<close> is a name like any other here, as it is
  for a computed key.  Its prototype is \<^verbatim>\<open>Object.prototype\<close>.
\<close>

definition ordinary_object :: "(name \<times> 'v entry) list \<Rightarrow> 'v taskset" where
  "ordinary_object entries =
     \<lparr>own = own_property_order (fold (\<lambda>(k, v). create_property k v) entries []),
      inherited = Object_prototype\<rparr>"

text \<open>
  What is assigned to \<^verbatim>\<open>returnValue[name]\<close>: the raw value, or a settlement descriptor
  \<^verbatim>\<open>{ status: 'fulfilled', value }\<close> or \<^verbatim>\<open>{ status: 'rejected', reason }\<close>.  A descriptor
  is an object; a raw value is an object or \<^verbatim>\<open>null\<close> unless it is a primitive.
\<close>

datatype 'v slot =
    Raw "'v jsval"
  | StatusFulfilled "'v jsval"
  | StatusRejected "'v jsval"

definition object_or_null :: "'v slot \<Rightarrow> bool" where
  "object_or_null s = (case s of Raw (Plain x) \<Rightarrow> False | _ \<Rightarrow> True)"

text \<open>
  \<^verbatim>\<open>returnValue\<close> is created as \<^verbatim>\<open>{}\<close>, an ordinary object: it has own properties and
  a prototype, at first \<^verbatim>\<open>Object.prototype\<close> (\<^verbatim>\<open>proto = None\<close>).  The assignment
  \<^verbatim>\<open>returnValue[name] = v\<close> creates or overwrites the own property \<^verbatim>\<open>name\<close>, except at
  the name \<^verbatim>\<open>__proto__\<close>: as long as the object inherits from \<^verbatim>\<open>Object.prototype\<close>, that
  assignment runs the setter of \<^verbatim>\<open>Object.prototype.__proto__\<close>, which makes \<^verbatim>\<open>v\<close> the
  prototype of the object when \<^verbatim>\<open>v\<close> is an object or \<^verbatim>\<open>null\<close>, does nothing otherwise,
  and creates no own property in either case.
\<close>

record 'v jsobject =
  props :: "name \<rightharpoonup> 'v slot"
  proto :: "'v slot option"

definition empty_object :: "'v jsobject" where
  "empty_object = \<lparr>props = Map.empty, proto = None\<rparr>"

definition assign :: "name \<Rightarrow> 'v slot \<Rightarrow> 'v jsobject \<Rightarrow> 'v jsobject" where
  "assign name v obj =
     (if name = ''__proto__'' \<and> proto obj \<noteq> Some (Raw Null) then
        (if object_or_null v then obj\<lparr>proto := Some v\<rparr> else obj)
      else obj\<lparr>props := (props obj)(name \<mapsto> v)\<rparr>)"

text \<open>
  A promise of the array \<^verbatim>\<open>promises\<close>: the async arrow function of one task.  It
  fulfils with \<^verbatim>\<open>undefined\<close>, or rejects with what the \<^verbatim>\<open>catch\<close> block rethrows.
\<close>

datatype 'v task_promise = TaskPending | TaskFulfilled | TaskRejected "'v jsval"

text \<open>
  The promise that \<^verbatim>\<open>executeTasksInternal\<close> returns: pending, fulfilled with the object
  \<^verbatim>\<open>returnValue\<close>, fulfilled with another value, or rejected.
\<close>

datatype 'v call =
    CallPending
  | CallResolved "'v jsobject"
  | CallFulfilled "'v jsval"
  | CallRejected "'v jsval"

text \<open>
  The callback of \<^verbatim>\<open>.then(() => returnValue)\<close> returns \<^verbatim>\<open>returnValue\<close>, and the promise
  that \<^verbatim>\<open>then\<close> made is resolved with it.  Resolving a promise with an object reads the
  property \<^verbatim>\<open>then\<close> of the object: if it is a function, the object is a thenable, the
  function is called with the two resolving functions of the promise, and the promise
  settles as that call decides; otherwise the promise is fulfilled with the object.  The
  objects that can become the prototype of \<^verbatim>\<open>returnValue\<close> have no \<^verbatim>\<open>then\<close> method, so
  only an own property counts, and it is a function only if it holds the raw result of a
  task named \<^verbatim>\<open>then\<close>.
\<close>

definition thenable :: "'v jsobject \<Rightarrow> 'v reaction option" where
  "thenable obj = (case props obj ''then'' of Some (Raw (Fn r)) \<Rightarrow> Some r | _ \<Rightarrow> None)"

definition resolved_with :: "'v jsobject \<Rightarrow> 'v call" where
  "resolved_with obj =
     (case thenable obj of
        None \<Rightarrow> CallResolved obj
      | Some Ignores \<Rightarrow> CallPending
      | Some (Resolves x) \<Rightarrow> CallFulfilled (Plain x)
      | Some (Rejects x) \<Rightarrow> CallRejected (Plain x))"

text \<open>
  The variables the closures of \<^verbatim>\<open>executeTasksInternal\<close> share, and the bookkeeping
  of the run: \<^verbatim>\<open>heap\<close> holds the promises that \<^verbatim>\<open>waitForDep\<close> returned (a resolver
  pair is the index of its promise), \<^verbatim>\<open>units\<close> the suspended async arrow functions,
  \<^verbatim>\<open>promises\<close> the array that \<^verbatim>\<open>taskNames.map\<close> built, \<^verbatim>\<open>calls\<close> the log of
  \<^verbatim>\<open>taskFn.call\<close>, \<^verbatim>\<open>settled\<close> the tasks in the order in which their arrow
  functions finished, and \<^verbatim>\<open>joined\<close> the returned promise.
\<close>

record 'v state =
  results :: "name \<rightharpoonup> 'v jsval"
  errors :: "name \<rightharpoonup> 'v jsval"
  resolvers :: "name \<rightharpoonup> nat list"
  returnValue :: "'v jsobject"
  waitingFor :: "(name \<times> name list) list"
  heap :: "'v promise list"
  units :: "name \<rightharpoonup> 'v body"
  promises :: "name \<rightharpoonup> 'v task_promise"
  calls :: "name list"
  settled :: "name list"
  joined :: "'v call"

section \<open>The cycle detector\<close>

text \<open>
  \<^verbatim>\<open>waitingFor\<close> is a \<^verbatim>\<open>Map\<close> from a task to the \<^verbatim>\<open>Set\<close> of tasks it asked for; sets
  iterate in insertion order.  The stack of \<^verbatim>\<open>hasCyclePath\<close> is a list whose head is
  the top, so that pushing \<^verbatim>\<open>deps\<close> one by one puts them reversed in front.
\<close>

type_synonym graph = "(name \<times> name list) list"

function hasCyclePath_loop :: "graph \<Rightarrow> name \<Rightarrow> name list \<Rightarrow> name list \<Rightarrow> bool" where
  "hasCyclePath_loop G to visited [] = False"
| "hasCyclePath_loop G to visited (current # stack) =
     (if current = to then True
      else if current \<in> set visited then hasCyclePath_loop G to visited stack
      else (case map_of G current of
              None \<Rightarrow> hasCyclePath_loop G to (current # visited) stack
            | Some deps \<Rightarrow> hasCyclePath_loop G to (current # visited) (rev deps @ stack)))"
  by pat_completeness auto
termination
proof (relation "inv_image (finite_psubset <*lex*> less_than)
          (\<lambda>(G, to, visited, stack). (set (map fst G) - set visited, length stack))")
  show "wf (inv_image (finite_psubset <*lex*> less_than)
          (\<lambda>(G, to, visited, stack). (set (map fst G) - set visited, length stack)))"
    by auto
next
  fix G :: graph and to :: name and visited :: "name list"
    and current :: name and stack :: "name list"
  show "((G, to, visited, stack), (G, to, visited, current # stack))
      \<in> inv_image (finite_psubset <*lex*> less_than)
          (\<lambda>(G, to, visited, stack). (set (map fst G) - set visited, length stack))"
    by simp
next
  fix G :: graph and to :: name and visited :: "name list"
    and current :: name and stack :: "name list"
  assume "current \<notin> set visited" "map_of G current = None"
  then have "set (map fst G) - set (current # visited) = set (map fst G) - set visited"
    by (auto simp: map_of_eq_None_iff)
  then show "((G, to, current # visited, stack), (G, to, visited, current # stack))
      \<in> inv_image (finite_psubset <*lex*> less_than)
          (\<lambda>(G, to, visited, stack). (set (map fst G) - set visited, length stack))"
    by simp
next
  fix G :: graph and to :: name and visited :: "name list"
    and current :: name and stack deps :: "name list"
  assume "current \<notin> set visited" "map_of G current = Some deps"
  then have "current \<in> set (map fst G)"
    by (metis map_of_eq_None_iff option.distinct(1) set_map)
  with \<open>current \<notin> set visited\<close>
  have "set (map fst G) - set (current # visited) \<subset> set (map fst G) - set visited"
    by auto
  then show "((G, to, current # visited, rev deps @ stack), (G, to, visited, current # stack))
      \<in> inv_image (finite_psubset <*lex*> less_than)
          (\<lambda>(G, to, visited, stack). (set (map fst G) - set visited, length stack))"
    by (simp add: finite_psubset_def)
qed

definition hasCyclePath :: "graph \<Rightarrow> name \<Rightarrow> name \<Rightarrow> bool" where
  "hasCyclePath G from to = hasCyclePath_loop G to [] [from]"


text \<open>
  \<^verbatim>\<open>buildCyclePath\<close>: the recursive \<^verbatim>\<open>findPath\<close> threads the two variables it
  mutates, \<^verbatim>\<open>visited\<close> and \<^verbatim>\<open>path\<close>; \<^verbatim>\<open>findPath_deps\<close> is its \<^verbatim>\<open>for\<close> loop.
\<close>

function findPath :: "graph \<Rightarrow> name \<Rightarrow> name \<Rightarrow> name list \<times> name list \<Rightarrow> bool \<times> name list \<times> name list"
  and findPath_deps :: "graph \<Rightarrow> name \<Rightarrow> name list \<Rightarrow> name list \<times> name list \<Rightarrow> bool \<times> name list \<times> name list"
where
  "findPath G to current (visited, path) =
     (if current = to then (True, visited, path)
      else if current \<in> set visited then (False, visited, path)
      else (case map_of G current of
              None \<Rightarrow> (False, current # visited, path)
            | Some deps \<Rightarrow> findPath_deps G to deps (current # visited, path)))"
| "findPath_deps G to [] (visited, path) = (False, visited, path)"
| "findPath_deps G to (dep # deps) (visited, path) =
     (case findPath G to dep (visited, path @ [dep]) of
        (True, visited', path') \<Rightarrow> (True, visited', path')
      | (False, visited', path') \<Rightarrow> findPath_deps G to deps (visited', butlast path'))"
  by pat_completeness auto

lemma findPath_dom_visited_mono:
  "findPath_findPath_deps_dom (Inl (G, to, current, vp)) \<Longrightarrow>
     set (fst vp) \<subseteq> set (fst (snd (findPath G to current vp)))"
  "findPath_findPath_deps_dom (Inr (G, to, deps, vp)) \<Longrightarrow>
     set (fst vp) \<subseteq> set (fst (snd (findPath_deps G to deps vp)))"
proof (induct G to current vp and G to deps vp rule: findPath_findPath_deps.pinduct)
  case (1 G to current visited path)
  then show ?case
    by (auto simp: findPath.psimps split: option.splits)
next
  case (2 G to visited path)
  then show ?case by (simp add: findPath_deps.psimps)
next
  case (3 G to dep deps visited path)
  obtain found visited' path'
    where r: "findPath G to dep (visited, path @ [dep]) = (found, visited', path')"
    by (cases "findPath G to dep (visited, path @ [dep])") auto
  from 3(2) r have m: "set visited \<subseteq> set visited'" by simp
  show ?case
  proof (cases found)
    case True
    with 3(1) r m show ?thesis by (simp add: findPath_deps.psimps)
  next
    case False
    with 3(3)[OF r[symmetric]] r
    have "set visited' \<subseteq> set (fst (snd (findPath_deps G to deps (visited', butlast path'))))"
      by simp
    with 3(1) r m False show ?thesis by (auto simp add: findPath_deps.psimps)
  qed
qed

termination findPath
proof (relation "inv_image (finite_psubset <*lex*> less_than)
    (\<lambda>x. case x of
        Inl (G, to, current, (visited, path)) \<Rightarrow> (set (map fst G) - set visited, 0)
      | Inr (G, to, deps, (visited, path)) \<Rightarrow> (set (map fst G) - set visited, Suc (length deps)))",
    goal_cases)
  case 1
  then show ?case by auto
next
  case (2 G to current visited path deps)
  then have "current \<in> set (map fst G)"
    by (metis map_of_eq_None_iff option.distinct(1) set_map)
  with 2 have "set (map fst G) - set (current # visited) \<subset> set (map fst G) - set visited"
    by auto
  then show ?case by (simp add: finite_psubset_def)
next
  case (3 G to dep deps visited path)
  then show ?case by simp
next
  case (4 G to dep deps visited path found rest visited' path')
  have "set visited \<subseteq> set visited'"
    using 4 findPath_dom_visited_mono(1)[of G to dep "(visited, path @ [dep])"]
    by (metis fst_conv snd_conv)
  then have "set (map fst G) - set visited' \<subseteq> set (map fst G) - set visited" by auto
  then show ?case
    by (auto simp: finite_psubset_def)
qed

text \<open>\<^verbatim>\<open>path.map(String).join(sep)\<close>, and the separator of the messages, " \<rightarrow> " in UTF-8.\<close>

fun join :: "string \<Rightarrow> string list \<Rightarrow> string" where
  "join sep [] = []"
| "join sep [x] = x"
| "join sep (x # y # ys) = x @ sep @ join sep (y # ys)"

definition arrow :: string where
  "arrow = [CHR 0x20, CHR 0xE2, CHR 0x86, CHR 0x92, CHR 0x20]"

definition cyclePath_list :: "graph \<Rightarrow> name \<Rightarrow> name \<Rightarrow> name list" where
  "cyclePath_list G from to = snd (snd (findPath G to from ([], [from])))"

definition buildCyclePath :: "graph \<Rightarrow> name \<Rightarrow> name \<Rightarrow> string" where
  "buildCyclePath G from to = join arrow (cyclePath_list G from to)"

section \<open>The dependency handle\<close>

text \<open>The four messages of the errors that the executor creates itself.\<close>

definition dquote :: string where
  "dquote = [CHR 0x22]"

definition unknown_task_message :: "name \<Rightarrow> string" where
  "unknown_task_message depName = ''Unknown task '' @ dquote @ depName @ dquote"

definition self_reference_message :: "name \<Rightarrow> name \<Rightarrow> string" where
  "self_reference_message callerTask depName =
     ''Circular dependency detected: '' @ callerTask @ arrow @ depName"

definition cycle_message :: "name \<Rightarrow> string \<Rightarrow> string" where
  "cycle_message callerTask cyclePath =
     ''Circular dependency detected: '' @ callerTask @ arrow @ cyclePath @ arrow @ callerTask"

definition not_a_function_message :: "name \<Rightarrow> string" where
  "not_a_function_message name = ''Task '' @ dquote @ name @ dquote @ '' is not a function''"

text \<open>
  \<^verbatim>\<open>Promise.reject\<close>, \<^verbatim>\<open>Promise.resolve\<close> and \<^verbatim>\<open>new Promise\<close> allocate a promise
  and return its index; the executor of the new promise appends its resolver pair to the
  queue of \<^verbatim>\<open>depName\<close>.
\<close>

definition Promise_reject :: "'v jsval \<Rightarrow> 'v state \<Rightarrow> nat \<times> 'v state" where
  "Promise_reject reason st = (length (heap st), st\<lparr>heap := heap st @ [Some (Rejected reason)]\<rparr>)"

definition Promise_resolve :: "'v jsval \<Rightarrow> 'v state \<Rightarrow> nat \<times> 'v state" where
  "Promise_resolve v st = (length (heap st), st\<lparr>heap := heap st @ [Some (Fulfilled v)]\<rparr>)"

definition new_Promise :: "name \<Rightarrow> 'v state \<Rightarrow> nat \<times> 'v state" where
  "new_Promise depName st =
     (length (heap st),
      st\<lparr>heap := heap st @ [None],
         resolvers := (resolvers st)
           (depName \<mapsto> (case resolvers st depName of None \<Rightarrow> [] | Some q \<Rightarrow> q) @ [length (heap st)])\<rparr>)"

text \<open>\<^verbatim>\<open>waitingFor.get(callerTask).add(depName)\<close>, after the \<^verbatim>\<open>set\<close> of a fresh \<^verbatim>\<open>Set\<close>.\<close>

definition record_wait :: "name \<Rightarrow> name \<Rightarrow> graph \<Rightarrow> graph" where
  "record_wait callerTask depName G =
     map (\<lambda>(k, deps). if k = callerTask
                         then (k, if depName \<in> set deps then deps else deps @ [depName])
                         else (k, deps))
         (if map_of G callerTask = None then G @ [(callerTask, [])] else G)"

definition waitForDep :: "'v taskset \<Rightarrow> name \<Rightarrow> name \<Rightarrow> 'v state \<Rightarrow> nat \<times> 'v state" where
  "waitForDep tasks callerTask depName st =
     (if \<not> in_op depName tasks then
        Promise_reject (NewError (unknown_task_message depName)) st
      else if callerTask = depName then
        Promise_reject (NewError (self_reference_message callerTask depName)) st
      else if hasCyclePath (waitingFor st) depName callerTask then
        Promise_reject
          (NewError (cycle_message callerTask (buildCyclePath (waitingFor st) depName callerTask))) st
      else
        (let st1 = st\<lparr>waitingFor := record_wait callerTask depName (waitingFor st)\<rparr> in
         case results st1 depName of
           Some v \<Rightarrow> Promise_resolve v st1
         | None \<Rightarrow>
             (case errors st1 depName of
                Some err \<Rightarrow> Promise_reject err st1
              | None \<Rightarrow> new_Promise depName st1)))"

text \<open>
  \<^verbatim>\<open>handleResult\<close> and \<^verbatim>\<open>handleError\<close>.  Calling \<^verbatim>\<open>resolve\<close> or \<^verbatim>\<open>reject\<close> of a
  resolver pair settles its promise if it is still pending.
\<close>

definition settle :: "'v outcome \<Rightarrow> nat \<Rightarrow> 'v promise list \<Rightarrow> 'v promise list" where
  "settle out h H = (if h < length H \<and> H ! h = None then H[h := Some out] else H)"

definition drain :: "name \<Rightarrow> 'v outcome \<Rightarrow> 'v state \<Rightarrow> 'v state" where
  "drain name out st =
     (case resolvers st name of
        None \<Rightarrow> st
      | Some queue \<Rightarrow> st\<lparr>heap := fold (settle out) queue (heap st)\<rparr>)"

definition handleResult :: "bool \<Rightarrow> name \<Rightarrow> 'v jsval \<Rightarrow> 'v state \<Rightarrow> 'v state" where
  "handleResult handleSettled name v st =
     drain name (Fulfilled v)
       (st\<lparr>results := (results st)(name \<mapsto> v),
           returnValue := assign name (if handleSettled then StatusFulfilled v else Raw v)
                            (returnValue st)\<rparr>)"

definition handleError :: "bool \<Rightarrow> name \<Rightarrow> 'v jsval \<Rightarrow> 'v state \<Rightarrow> 'v state" where
  "handleError handleSettled name err st =
     drain name (Rejected err)
       (st\<lparr>errors := (errors st)(name \<mapsto> err),
           returnValue := (if handleSettled then assign name (StatusRejected err) (returnValue st)
                           else returnValue st)\<rparr>)"


section \<open>The executor\<close>

text \<open>
  Running a task body up to its next suspension point: every \<^verbatim>\<open>this.$.dep\<close> on the
  way calls \<^verbatim>\<open>waitForDep(name, dep)\<close> at once.
\<close>

primrec run_body :: "'v taskset \<Rightarrow> name \<Rightarrow> 'v body \<Rightarrow> 'v state \<Rightarrow> 'v body \<times> 'v state" where
  "run_body tasks name (Return v) st = (Return v, st)"
| "run_body tasks name (Throw err) st = (Throw err, st)"
| "run_body tasks name (Get depName k) st =
     (case waitForDep tasks name depName st of (h, st1) \<Rightarrow> run_body tasks name (k h) st1)"
| "run_body tasks name (Await h k) st = (Await h k, st)"
| "run_body tasks name (Pause b) st = (Pause b, st)"

text \<open>
  The two ends of the async arrow function of \<^verbatim>\<open>taskNames.map\<close>: after
  \<^verbatim>\<open>handleResult\<close> its promise fulfils; the \<^verbatim>\<open>catch\<close> block calls \<^verbatim>\<open>handleError\<close>
  and rethrows unless \<^verbatim>\<open>handleSettled\<close>.
\<close>

definition try_end :: "bool \<Rightarrow> name \<Rightarrow> 'v jsval \<Rightarrow> 'v state \<Rightarrow> 'v state" where
  "try_end handleSettled name v st =
     (let st1 = handleResult handleSettled name v st in
      st1\<lparr>units := (units st1)(name := None),
          promises := (promises st1)(name \<mapsto> TaskFulfilled),
          settled := settled st1 @ [name]\<rparr>)"

definition catch_block :: "bool \<Rightarrow> name \<Rightarrow> 'v jsval \<Rightarrow> 'v state \<Rightarrow> 'v state" where
  "catch_block handleSettled name err st =
     (let st1 = handleError handleSettled name err st in
      st1\<lparr>units := (units st1)(name := None),
          promises := (promises st1)
            (name \<mapsto> (if handleSettled then TaskFulfilled else TaskRejected err)),
          settled := settled st1 @ [name]\<rparr>)"

text \<open>
  The synchronous part of the arrow function, run by \<^verbatim>\<open>taskNames.map\<close>: the
  \<^verbatim>\<open>typeof\<close> test, \<^verbatim>\<open>taskFn.call(taskContext)\<close> up to the first suspension, and
  the \<^verbatim>\<open>await\<close> of what it returned.  A task function that throws before it suspends
  lands in the \<^verbatim>\<open>catch\<close> block at once.
\<close>

definition task_start :: "bool \<Rightarrow> 'v taskset \<Rightarrow> name \<Rightarrow> 'v state \<Rightarrow> 'v state" where
  "task_start handleSettled tasks name st =
     (case map_of (own tasks) name of
        Some (Callable taskFn) \<Rightarrow>
          (case run_body tasks name taskFn (st\<lparr>calls := calls st @ [name]\<rparr>) of
             (Throw err, st1) \<Rightarrow> catch_block handleSettled name err st1
           | (b, st1) \<Rightarrow> st1\<lparr>units := (units st1)(name \<mapsto> b),
                               promises := (promises st1)(name \<mapsto> TaskPending)\<rparr>)
      | _ \<Rightarrow> catch_block handleSettled name (NewError (not_a_function_message name)) st)"

text \<open>
  \<^verbatim>\<open>Promise.all\<close> rejects with the first rejection it meets and fulfils when every
  promise has; \<^verbatim>\<open>Promise.allSettled\<close> fulfils when none is pending.  A rejection passes
  through \<^verbatim>\<open>then\<close> to the returned promise; on fulfilment the callback of \<^verbatim>\<open>then\<close>
  runs, and the returned promise is resolved with \<^verbatim>\<open>returnValue\<close>.  As long as the
  returned promise is pending the model looks again after every step of the run.
\<close>

definition Promise_all :: "'v task_promise list \<Rightarrow> 'v task_promise" where
  "Promise_all ps =
     (case filter (\<lambda>p. p \<noteq> TaskPending \<and> p \<noteq> TaskFulfilled) ps of
        p # _ \<Rightarrow> p
      | [] \<Rightarrow> if list_all (\<lambda>p. p = TaskFulfilled) ps then TaskFulfilled else TaskPending)"

definition Promise_allSettled :: "'v task_promise list \<Rightarrow> 'v task_promise" where
  "Promise_allSettled ps = (if list_all (\<lambda>p. p \<noteq> TaskPending) ps then TaskFulfilled else TaskPending)"

definition promise_array :: "name list \<Rightarrow> 'v state \<Rightarrow> 'v task_promise list" where
  "promise_array taskNames st =
     map (\<lambda>name. case promises st name of None \<Rightarrow> TaskPending | Some p \<Rightarrow> p) taskNames"

definition aggregate :: "bool \<Rightarrow> name list \<Rightarrow> 'v state \<Rightarrow> 'v state" where
  "aggregate handleSettled taskNames st =
     (case joined st of
        CallPending \<Rightarrow>
          (case (if handleSettled then Promise_allSettled (promise_array taskNames st)
                 else Promise_all (promise_array taskNames st)) of
             TaskPending \<Rightarrow> st
           | TaskFulfilled \<Rightarrow> st\<lparr>joined := resolved_with (returnValue st)\<rparr>
           | TaskRejected err \<Rightarrow> st\<lparr>joined := CallRejected err\<rparr>)
      | _ \<Rightarrow> st)"

definition initial :: "'v state" where
  "initial = \<lparr>results = Map.empty, errors = Map.empty, resolvers = Map.empty,
              returnValue = empty_object, waitingFor = [], heap = [], units = Map.empty,
              promises = Map.empty, calls = [], settled = [], joined = CallPending\<rparr>"

definition executeTasksInternal :: "'v taskset \<Rightarrow> bool \<Rightarrow> 'v state" where
  "executeTasksInternal tasks handleSettled =
     aggregate handleSettled (Object_keys tasks)
       (fold (task_start handleSettled tasks) (Object_keys tasks) initial)"

text \<open>
  After the call has returned, the run goes on one resumption at a time: the event loop
  picks a suspended arrow function.  One that waits for a pending promise stays where
  it is; one whose task function has returned or thrown finishes; any other runs its
  body to the next suspension point.  A schedule is the list of the picks.
\<close>

definition resume :: "'v taskset \<Rightarrow> name \<Rightarrow> 'v body \<Rightarrow> 'v state \<Rightarrow> 'v state" where
  "resume tasks name b st =
     (case run_body tasks name b st of (b', st1) \<Rightarrow> st1\<lparr>units := (units st1)(name \<mapsto> b')\<rparr>)"

definition advance :: "bool \<Rightarrow> 'v taskset \<Rightarrow> name \<Rightarrow> 'v state \<Rightarrow> 'v state" where
  "advance handleSettled tasks name st =
     (case units st name of
        None \<Rightarrow> st
      | Some (Return v) \<Rightarrow> try_end handleSettled name v st
      | Some (Throw err) \<Rightarrow> catch_block handleSettled name err st
      | Some (Get depName k) \<Rightarrow> resume tasks name (Get depName k) st
      | Some (Await h k) \<Rightarrow>
          (if h < length (heap st) then
             (case heap st ! h of None \<Rightarrow> st | Some out \<Rightarrow> resume tasks name (k out) st)
           else st)
      | Some (Pause b) \<Rightarrow> resume tasks name b st)"

definition step :: "bool \<Rightarrow> 'v taskset \<Rightarrow> name \<Rightarrow> 'v state \<Rightarrow> 'v state" where
  "step handleSettled tasks name st =
     aggregate handleSettled (Object_keys tasks) (advance handleSettled tasks name st)"

definition run :: "bool \<Rightarrow> 'v taskset \<Rightarrow> name list \<Rightarrow> 'v state" where
  "run handleSettled tasks schedule =
     fold (step handleSettled tasks) schedule (executeTasksInternal tasks handleSettled)"

text \<open>The two exported functions, at a schedule.\<close>

definition all_call :: "'v taskset \<Rightarrow> name list \<Rightarrow> 'v call" where
  "all_call tasks schedule = joined (run False tasks schedule)"

definition allSettled :: "'v taskset \<Rightarrow> name list \<Rightarrow> 'v call" where
  "allSettled tasks schedule = joined (run True tasks schedule)"


text \<open>The promise that a call of \<^verbatim>\<open>waitForDep\<close> returned, as it is right after the call.\<close>

definition returned :: "nat \<times> 'v state \<Rightarrow> 'v promise" where
  "returned r = heap (snd r) ! fst r"

text \<open>A task set and a state to try the theorems on.\<close>

definition demo_tasks :: "int taskset" where
  "demo_tasks = ordinary_object [(''a'', NotCallable), (''b'', Callable (Return (Plain 0)))]"

text \<open>
  The wait graph as a relation: \<^verbatim>\<open>a\<close> waits on \<^verbatim>\<open>b\<close> when \<^verbatim>\<open>waitingFor.get(a)\<close>
  has \<^verbatim>\<open>b\<close>.  A chain is a list of names in which each waits on the next.
\<close>

definition waits_on :: "graph \<Rightarrow> name \<Rightarrow> name \<Rightarrow> bool" where
  "waits_on G a b = (case map_of G a of None \<Rightarrow> False | Some deps \<Rightarrow> b \<in> set deps)"

definition wait_edges :: "graph \<Rightarrow> (name \<times> name) set" where
  "wait_edges G = {(a, b). waits_on G a b}"

fun chain :: "graph \<Rightarrow> name list \<Rightarrow> bool" where
  "chain G [] = True"
| "chain G [x] = True"
| "chain G (x # y # ys) = (waits_on G x y \<and> chain G (y # ys))"

text \<open>
  Invariants of a run.  \<^verbatim>\<open>stored st d\<close> is what the state holds for task \<^verbatim>\<open>d\<close>, in
  the order in which \<^verbatim>\<open>waitForDep\<close> looks: \<^verbatim>\<open>results\<close> first, then \<^verbatim>\<open>errors\<close>.  A
  promise is queued on \<^verbatim>\<open>d\<close> when its resolver pair is in \<^verbatim>\<open>resolvers.get(d)\<close>; the
  queues are never emptied.  The queue invariant: a queued promise exists, shows exactly the
  stored outcome of its task, and is queued on one task only.
\<close>

definition stored :: "'v state \<Rightarrow> name \<Rightarrow> 'v promise" where
  "stored st d =
     (if results st d \<noteq> None then Some (Fulfilled (the (results st d)))
      else if errors st d \<noteq> None then Some (Rejected (the (errors st d)))
      else None)"

definition queued :: "'v state \<Rightarrow> name \<Rightarrow> nat \<Rightarrow> bool" where
  "queued st d h \<longleftrightarrow> (\<exists>queue. resolvers st d = Some queue \<and> h \<in> set queue)"

definition queue_inv :: "'v state \<Rightarrow> bool" where
  "queue_inv st \<longleftrightarrow>
     (\<forall>d h. queued st d h \<longrightarrow>
        h < length (heap st) \<and> heap st ! h = stored st d \<and> (\<forall>d'. queued st d' h \<longrightarrow> d' = d))"

text \<open>
  The life of one task, read off its entry in \<^verbatim>\<open>promises\<close>: not started, suspended, or
  finished with its one entry in \<^verbatim>\<open>results\<close> or \<^verbatim>\<open>errors\<close>.
\<close>

definition unit_ok :: "bool \<Rightarrow> 'v state \<Rightarrow> name \<Rightarrow> bool" where
  "unit_ok hs st n \<longleftrightarrow>
     (promises st n = None \<longrightarrow>
        units st n = None \<and> results st n = None \<and> errors st n = None \<and>
        n \<notin> set (settled st)) \<and>
     (promises st n = Some TaskPending \<longrightarrow>
        units st n \<noteq> None \<and> results st n = None \<and> errors st n = None \<and>
        n \<notin> set (settled st)) \<and>
     (promises st n = Some TaskFulfilled \<longrightarrow>
        units st n = None \<and> n \<in> set (settled st) \<and>
        (errors st n = None \<and> results st n \<noteq> None
         \<or> hs \<and> results st n = None \<and> errors st n \<noteq> None)) \<and>
     (\<forall>e. promises st n = Some (TaskRejected e) \<longrightarrow>
        \<not> hs \<and> units st n = None \<and> n \<in> set (settled st) \<and> results st n = None \<and>
        errors st n = Some e)"

definition run_inv :: "bool \<Rightarrow> 'v state \<Rightarrow> bool" where
  "run_inv hs st \<longleftrightarrow>
     queue_inv st \<and> (\<forall>n. unit_ok hs st n) \<and> acyclic (wait_edges (waitingFor st))"

text \<open>After \<^verbatim>\<open>taskNames.map\<close>, the array \<^verbatim>\<open>promises\<close> has one promise for each own key.\<close>

definition launched :: "'v taskset \<Rightarrow> 'v state \<Rightarrow> bool" where
  "launched tasks st \<longleftrightarrow> (\<forall>m. promises st m = None \<longleftrightarrow> m \<notin> set (Object_keys tasks))"


text \<open>
  The error of the task that failed first, in the order of time; whether every promise of
  the array is fulfilled; and what the returned promise must be, given both.
\<close>

definition first_failure :: "'v state \<Rightarrow> 'v jsval option" where
  "first_failure st =
     (case filter (\<lambda>n. errors st n \<noteq> None) (settled st) of [] \<Rightarrow> None | n # _ \<Rightarrow> errors st n)"

definition all_fulfilled :: "'v taskset \<Rightarrow> 'v state \<Rightarrow> bool" where
  "all_fulfilled tasks st \<longleftrightarrow> (\<forall>n \<in> set (Object_keys tasks). promises st n = Some TaskFulfilled)"

definition expected :: "bool \<Rightarrow> 'v taskset \<Rightarrow> 'v state \<Rightarrow> 'v call" where
  "expected hs tasks st =
     (if \<not> hs \<and> first_failure st \<noteq> None then CallRejected (the (first_failure st))
      else if all_fulfilled tasks st then resolved_with (returnValue st)
      else CallPending)"

text \<open>
  While \<^verbatim>\<open>taskNames.map\<close> runs with \<^verbatim>\<open>handleSettled = false\<close>, the tasks that have
  failed are those of the processed keys that threw at once, in the order of the keys.
\<close>

definition launch_order :: "name list \<Rightarrow> 'v state \<Rightarrow> bool" where
  "launch_order ps st \<longleftrightarrow>
     settled st = filter (\<lambda>n. errors st n \<noteq> None) ps \<and>
     (\<forall>n \<in> set ps. promises st n =
        Some (if errors st n = None then TaskPending else TaskRejected (the (errors st n))))"


text \<open>\<^verbatim>\<open>haystack.includes(needle)\<close>, to read messages with.\<close>

fun occurs_in :: "string \<Rightarrow> string \<Rightarrow> bool" where
  "occurs_in s [] = (s = [])"
| "occurs_in s (c # cs) = (take (length s) (c # cs) = s \<or> occurs_in s cs)"

text \<open>\<^verbatim>\<open>return await p\<close>: hand on what the promise settled with.\<close>

definition await_value :: "nat \<Rightarrow> int body" where
  "await_value h = Await h (\<lambda>out. case out of Fulfilled v \<Rightarrow> Return v | Rejected e \<Rightarrow> Throw e)"

text \<open>
  Task sets for the theorems below: three tasks that ask for each other in a ring; a task
  that reads a name of \<^verbatim>\<open>Object.prototype\<close>; tasks that succeed, fail at once and fail
  later, with one waiting; a task that asks for an entry, listed after it, that is not a
  function; a task that asks for one that has failed.
\<close>

definition cycle_tasks :: "int taskset" where
  "cycle_tasks = ordinary_object
     [(''a'', Callable (Pause (Get ''b'' await_value))),
      (''b'', Callable (Get ''c'' await_value)),
      (''c'', Callable (Get ''a'' await_value))]"

definition inherited_name_tasks :: "int taskset" where
  "inherited_name_tasks = ordinary_object [(''a'', Callable (Get ''toString'' await_value))]"



definition failing_dep_tasks :: "int taskset" where
  "failing_dep_tasks = ordinary_object
     [(''a'', Callable (Throw (Plain 7))),
      (''b'', Callable (Get ''a'' await_value))]"

text \<open>
  Two states have the same core when they agree on everything but \<^verbatim>\<open>returnValue\<close>, the
  array \<^verbatim>\<open>promises\<close> and the returned promise, the only places where
  \<^verbatim>\<open>handleSettled\<close> is read.
\<close>

definition same_core :: "'v state \<Rightarrow> 'v state \<Rightarrow> bool" where
  "same_core s t \<longleftrightarrow>
     results s = results t \<and> errors s = errors t \<and> resolvers s = resolvers t \<and>
     waitingFor s = waitingFor t \<and> heap s = heap t \<and> units s = units t \<and>
     calls s = calls t \<and> settled s = settled t"

text \<open>
  What the run has assigned to \<^verbatim>\<open>returnValue\<close>, read off \<^verbatim>\<open>results\<close> and \<^verbatim>\<open>errors\<close>:
  \<^verbatim>\<open>handleResult\<close> assigns the raw result or its descriptor, \<^verbatim>\<open>handleError\<close> the
  descriptor of the error and only if \<^verbatim>\<open>handleSettled\<close>.  Every name but \<^verbatim>\<open>__proto__\<close>
  became an own property; what was assigned at \<^verbatim>\<open>__proto__\<close> became the prototype if it
  is an object or \<^verbatim>\<open>null\<close>, and was dropped otherwise.
\<close>

definition slot_of :: "bool \<Rightarrow> 'v state \<Rightarrow> name \<Rightarrow> 'v slot option" where
  "slot_of hs st n =
     (case results st n of
        Some v \<Rightarrow> Some (if hs then StatusFulfilled v else Raw v)
      | None \<Rightarrow>
          (case errors st n of
             Some e \<Rightarrow> if hs then Some (StatusRejected e) else None
           | None \<Rightarrow> None))"

definition return_of :: "bool \<Rightarrow> 'v state \<Rightarrow> 'v jsobject" where
  "return_of hs st =
     \<lparr>props = (slot_of hs st)(''__proto__'' := None),
      proto = (case slot_of hs st ''__proto__'' of
                 Some s \<Rightarrow> if object_or_null s then Some s else None
               | None \<Rightarrow> None)\<rparr>"

definition rv_inv :: "bool \<Rightarrow> 'v state \<Rightarrow> bool" where
  "rv_inv hs st \<longleftrightarrow> returnValue st = return_of hs st"



text \<open>
  Task sets with an own property named \<^verbatim>\<open>__proto__\<close> (as a computed key or
  \<^verbatim>\<open>JSON.parse\<close> creates it) and with a task named \<^verbatim>\<open>then\<close> that returns a function
  which calls neither of its arguments; and a task set with an entry that is not a
  function, a task that suspends twice, and a task that waits for it.
\<close>

definition proto_tasks :: "int taskset" where
  "proto_tasks = ordinary_object
     [(''__proto__'', Callable (Return (Plain 1))),
      (''a'', Callable (Return (Plain 2)))]"

definition then_tasks :: "int taskset" where
  "then_tasks = ordinary_object [(''then'', Callable (Return (Fn Ignores)))]"


section \<open>Task sets without array indices and repeated names\<close>

lemma create_property_fresh:
  "k \<notin> fst ` set ps \<Longrightarrow> create_property k v ps = ps @ [(k, v)]"
  by (induction ps) auto

lemma fold_create_property:
  "distinct (map fst es) \<Longrightarrow> fst ` set es \<inter> fst ` set acc = {} \<Longrightarrow>
     fold (\<lambda>(k, v). create_property k v) es acc = acc @ es"
proof (induction es arbitrary: acc)
  case Nil
  then show ?case by simp
next
  case (Cons e es)
  obtain k v where e: "e = (k, v)" by (cases e)
  from Cons.prems(2) e have f: "k \<notin> fst ` set acc" by auto
  from Cons.prems e have d: "distinct (map fst es)"
    and i: "fst ` set es \<inter> fst ` set (acc @ [(k, v)]) = {}" by auto
  from Cons.IH[OF d i] show ?case by (simp add: e create_property_fresh[OF f])
qed

lemma own_property_order_plain:
  assumes "\<forall>k \<in> set (map fst ps). array_index k = None"
  shows "own_property_order ps = ps"
proof -
  from assms have "filter (\<lambda>p. array_index (fst p) \<noteq> None) ps = []"
    by (auto simp: filter_empty_conv)
  moreover from assms have "filter (\<lambda>p. array_index (fst p) = None) ps = ps"
    by (auto simp: filter_id_conv)
  ultimately show ?thesis by (simp add: own_property_order_def)
qed

lemma ordinary_object_plain:
  assumes "distinct (map fst es)" "\<forall>k \<in> set (map fst es). array_index k = None"
  shows "ordinary_object es = \<lparr>own = es, inherited = Object_prototype\<rparr>"
  using fold_create_property[OF assms(1), of "[]"] own_property_order_plain[OF assms(2)]
  by (simp add: ordinary_object_def)

lemma array_index_letter: "digit_value c = None \<Longrightarrow> array_index (c # cs) = None"
  by (simp add: array_index_def)

lemma not_digits [simp]:
  "digit_value CHR ''a'' = None" "digit_value CHR ''b'' = None" "digit_value CHR ''c'' = None"
  "digit_value CHR ''d'' = None" "digit_value CHR ''l'' = None" "digit_value CHR ''o'' = None"
  "digit_value CHR ''s'' = None" "digit_value CHR ''t'' = None" "digit_value CHR ''w'' = None"
  "digit_value CHR ''_'' = None"
  by (simp_all add: digit_value_def)

section \<open>The dependency handle, case by case\<close>

lemma returned_Promise_reject [simp]: "returned (Promise_reject e st) = Some (Rejected e)"
  by (simp add: returned_def Promise_reject_def)

lemma returned_Promise_resolve [simp]: "returned (Promise_resolve v st) = Some (Fulfilled v)"
  by (simp add: returned_def Promise_resolve_def)

lemma returned_new_Promise [simp]: "returned (new_Promise d st) = None"
  by (simp add: returned_def new_Promise_def)

lemma waitForDep_unknown:
  "\<not> in_op depName tasks \<Longrightarrow>
     waitForDep tasks callerTask depName st = Promise_reject (NewError (unknown_task_message depName)) st"
  by (simp add: waitForDep_def)

lemma waitForDep_self:
  "in_op depName tasks \<Longrightarrow>
     waitForDep tasks depName depName st =
       Promise_reject (NewError (self_reference_message depName depName)) st"
  by (simp add: waitForDep_def)

lemma waitForDep_cycle:
  "in_op depName tasks \<Longrightarrow> callerTask \<noteq> depName \<Longrightarrow>
   hasCyclePath (waitingFor st) depName callerTask \<Longrightarrow>
     waitForDep tasks callerTask depName st =
       Promise_reject
         (NewError (cycle_message callerTask (buildCyclePath (waitingFor st) depName callerTask))) st"
  by (simp add: waitForDep_def)


lemma errors_drain [simp]: "errors (drain n out st) = errors st"
  by (simp add: drain_def split: option.splits)

lemma errors_catch_block:
  "errors (catch_block handleSettled name err st) name = Some err"
  by (simp add: catch_block_def handleError_def Let_def)

text \<open>
  Claim C10.  Every error that the executor creates is \<^verbatim>\<open>new Error(message)\<close> and
  nothing else tells its kind: an access to a name that \<^verbatim>\<open>in\<close> does not find rejects
  with \<^verbatim>\<open>Unknown task "name"\<close>, an entry that is not a function fails with
  \<^verbatim>\<open>Task "name" is not a function\<close>, and an access of a task to itself as well as an
  access that would close a cycle reject with a message that begins
  \<^verbatim>\<open>Circular dependency detected: \<close>.
\<close>

theorem executor_errors_are_plain:
  "(\<not> in_op d1 tasks \<longrightarrow>
      returned (waitForDep tasks c1 d1 st) =
        Some (Rejected (NewError (''Unknown task '' @ dquote @ d1 @ dquote))))
   \<and> (in_op c2 tasks \<longrightarrow>
      returned (waitForDep tasks c2 c2 st) =
        Some (Rejected (NewError (''Circular dependency detected: '' @ c2 @ arrow @ c2))))
   \<and> (in_op d3 tasks \<and> c3 \<noteq> d3 \<and> hasCyclePath (waitingFor st) d3 c3 \<longrightarrow>
      returned (waitForDep tasks c3 d3 st) =
        Some (Rejected (NewError (''Circular dependency detected: '' @ c3 @ arrow @
           buildCyclePath (waitingFor st) d3 c3 @ arrow @ c3))))
   \<and> (map_of (own tasks) n = Some NotCallable \<longrightarrow>
      errors (task_start handleSettled tasks n st) n =
        Some (NewError (''Task '' @ dquote @ n @ dquote @ '' is not a function'')))"
  by (simp add: waitForDep_unknown waitForDep_self waitForDep_cycle task_start_def
      errors_catch_block unknown_task_message_def self_reference_message_def cycle_message_def
      not_a_function_message_def)

theorem executor_errors_are_plain_witness:
  "returned (waitForDep demo_tasks ''a'' ''zzz'' (initial\<lparr>waitingFor := [(''b'', [''a''])]\<rparr>)) =
        Some (Rejected (NewError (''Unknown task '' @ dquote @ ''zzz'' @ dquote)))
   \<and> returned (waitForDep demo_tasks ''a'' ''a'' (initial\<lparr>waitingFor := [(''b'', [''a''])]\<rparr>)) =
        Some (Rejected (NewError (''Circular dependency detected: '' @ ''a'' @ arrow @ ''a'')))
   \<and> returned (waitForDep demo_tasks ''a'' ''b'' (initial\<lparr>waitingFor := [(''b'', [''a''])]\<rparr>)) =
        Some (Rejected (NewError (''Circular dependency detected: '' @ ''a'' @ arrow @
           buildCyclePath [(''b'', [''a''])] ''b'' ''a'' @ arrow @ ''a'')))
   \<and> errors (task_start False demo_tasks ''a'' (initial\<lparr>waitingFor := [(''b'', [''a''])]\<rparr>)) ''a'' =
        Some (NewError (''Task '' @ dquote @ ''a'' @ dquote @ '' is not a function''))"
proof -
  let ?st = "initial\<lparr>waitingFor := [(''b'', [''a''])]\<rparr> :: int state"
  have h1: "\<not> in_op ''zzz'' demo_tasks"
    by (simp add: in_op_def demo_tasks_def ordinary_object_plain array_index_letter Object_prototype_def)
  have h2: "in_op ''a'' demo_tasks"
    by (simp add: in_op_def demo_tasks_def ordinary_object_plain array_index_letter)
  have h3: "in_op ''b'' demo_tasks \<and> ''a'' \<noteq> ''b'' \<and> hasCyclePath (waitingFor ?st) ''b'' ''a''"
    by (simp add: in_op_def demo_tasks_def ordinary_object_plain array_index_letter hasCyclePath_def)
  have h4: "map_of (own demo_tasks) ''a'' = Some NotCallable"
    by (simp add: demo_tasks_def ordinary_object_plain array_index_letter)
  from executor_errors_are_plain [of "''zzz''" demo_tasks "''a''" ?st "''a''" "''b''" "''a''" "''a''" False]
    h1 h2 h3 h4
  show ?thesis by simp
qed

section \<open>The cycle detector is a reachability test\<close>

lemma wait_edges_iff: "(a, b) \<in> wait_edges G \<longleftrightarrow> (\<exists>deps. map_of G a = Some deps \<and> b \<in> set deps)"
  by (auto simp: wait_edges_def waits_on_def split: option.splits)

lemma loop_sound:
  "hasCyclePath_loop G to visited stack \<Longrightarrow> \<exists>s \<in> set stack. (s, to) \<in> (wait_edges G)\<^sup>*"
proof (induction G to visited stack rule: hasCyclePath_loop.induct)
  case (1 G to visited)
  then show ?case by simp
next
  case (2 G to visited current stack)
  show ?case
  proof (cases "current = to")
    case True
    then show ?thesis by auto
  next
    case ne: False
    show ?thesis
    proof (cases "current \<in> set visited")
      case True
      with ne 2 show ?thesis by auto
    next
      case nv: False
      show ?thesis
      proof (cases "map_of G current")
        case None
        with ne nv 2 show ?thesis by auto
      next
        case (Some deps)
        with ne nv 2 obtain s where s: "s \<in> set (rev deps @ stack)" "(s, to) \<in> (wait_edges G)\<^sup>*"
          by auto
        show ?thesis
        proof (cases "s \<in> set deps")
          case True
          with Some have "(current, s) \<in> wait_edges G" by (auto simp: wait_edges_iff)
          with s(2) have "(current, to) \<in> (wait_edges G)\<^sup>*" by (simp add: converse_rtrancl_into_rtrancl)
          then show ?thesis by auto
        next
          case False
          with s show ?thesis by auto
        qed
      qed
    qed
  qed
qed

lemma loop_complete:
  "\<not> hasCyclePath_loop G to visited stack \<Longrightarrow> to \<notin> set visited \<Longrightarrow>
   (\<forall>v \<in> set visited. \<forall>w. (v, w) \<in> wait_edges G \<longrightarrow> w \<in> set visited \<union> set stack) \<Longrightarrow>
   \<exists>C. set visited \<union> set stack \<subseteq> C \<and> to \<notin> C \<and> (\<forall>v \<in> C. \<forall>w. (v, w) \<in> wait_edges G \<longrightarrow> w \<in> C)"
proof (induction G to visited stack rule: hasCyclePath_loop.induct)
  case (1 G to visited)
  then show ?case by (intro exI[of _ "set visited"]) auto
next
  case (2 G to visited current stack)
  from 2(4) have ne: "current \<noteq> to" by (auto split: if_splits)
  show ?case
  proof (cases "current \<in> set visited")
    case True
    with ne 2(4) have "\<not> hasCyclePath_loop G to visited stack" by simp
    moreover from True 2(6) have "\<forall>v \<in> set visited. \<forall>w. (v, w) \<in> wait_edges G \<longrightarrow> w \<in> set visited \<union> set stack"
      by auto
    ultimately obtain C where "set visited \<union> set stack \<subseteq> C" "to \<notin> C"
        "\<forall>v \<in> C. \<forall>w. (v, w) \<in> wait_edges G \<longrightarrow> w \<in> C"
      using 2(1)[OF ne True] 2(5) by blast
    with True show ?thesis by (intro exI[of _ C]) auto
  next
    case nv: False
    show ?thesis
    proof (cases "map_of G current")
      case None
      with ne nv 2(4) have l: "\<not> hasCyclePath_loop G to (current # visited) stack" by simp
      from None have "\<forall>w. (current, w) \<notin> wait_edges G" by (simp add: wait_edges_iff)
      with 2(6) have "\<forall>v \<in> set (current # visited). \<forall>w. (v, w) \<in> wait_edges G \<longrightarrow> w \<in> set (current # visited) \<union> set stack"
        by auto
      moreover from ne 2(5) have "to \<notin> set (current # visited)" by auto
      ultimately obtain C where "set (current # visited) \<union> set stack \<subseteq> C" "to \<notin> C"
        "\<forall>v \<in> C. \<forall>w. (v, w) \<in> wait_edges G \<longrightarrow> w \<in> C"
        using 2(2)[OF ne nv None l] by blast
      then show ?thesis by (intro exI[of _ C]) auto
    next
      case (Some deps)
      with ne nv 2(4) have l: "\<not> hasCyclePath_loop G to (current # visited) (rev deps @ stack)" by simp
      from Some have "\<forall>w. (current, w) \<in> wait_edges G \<longrightarrow> w \<in> set deps" by (simp add: wait_edges_iff)
      with 2(6) have "\<forall>v \<in> set (current # visited). \<forall>w. (v, w) \<in> wait_edges G \<longrightarrow> w \<in> set (current # visited) \<union> set (rev deps @ stack)"
        by auto
      moreover from ne 2(5) have "to \<notin> set (current # visited)" by auto
      ultimately obtain C where "set (current # visited) \<union> set (rev deps @ stack) \<subseteq> C" "to \<notin> C"
        "\<forall>v \<in> C. \<forall>w. (v, w) \<in> wait_edges G \<longrightarrow> w \<in> C"
        using 2(3)[OF ne nv Some l] by blast
      then show ?thesis by (intro exI[of _ C]) auto
    qed
  qed
qed

lemma closed_not_reachable:
  assumes "(a, b) \<in> R\<^sup>*" "a \<in> C" "\<forall>v \<in> C. \<forall>w. (v, w) \<in> R \<longrightarrow> w \<in> C"
  shows "b \<in> C"
  using assms by (induction rule: rtrancl_induct) auto

lemma hasCyclePath_iff: "hasCyclePath G a b \<longleftrightarrow> (a, b) \<in> (wait_edges G)\<^sup>*"
proof
  assume "hasCyclePath G a b"
  then show "(a, b) \<in> (wait_edges G)\<^sup>*"
    using loop_sound[of G b "[]" "[a]"] by (simp add: hasCyclePath_def)
next
  assume r: "(a, b) \<in> (wait_edges G)\<^sup>*"
  show "hasCyclePath G a b"
  proof (rule ccontr)
    assume "\<not> hasCyclePath G a b"
    then have "\<not> hasCyclePath_loop G b [] [a]" by (simp add: hasCyclePath_def)
    from loop_complete[OF this] obtain C where "a \<in> C" "b \<notin> C"
      "\<forall>v \<in> C. \<forall>w. (v, w) \<in> wait_edges G \<longrightarrow> w \<in> C" by auto
    with closed_not_reachable[OF r] show False by blast
  qed
qed

lemma chain_Cons: "chain G (x # xs) \<longleftrightarrow> (xs = [] \<or> (waits_on G x (hd xs) \<and> chain G xs))"
  by (cases xs) auto

lemma findPath_False_path:
  "findPath G to current vp = (False, visited', path') \<Longrightarrow> path' = snd vp"
  "findPath_deps G to deps vp = (False, visited', path') \<Longrightarrow> path' = snd vp"
proof (induction G to current vp and G to deps vp arbitrary: visited' path' and visited' path'
    rule: findPath_findPath_deps.induct)
  case (1 G to current visited path)
  then show ?case by (auto split: if_splits option.splits)
next
  case (2 G to visited path)
  then show ?case by simp
next
  case (3 G to dep deps visited path)
  obtain found v1 p1 where r: "findPath G to dep (visited, path @ [dep]) = (found, v1, p1)"
    by (cases "findPath G to dep (visited, path @ [dep])") auto
  with 3(3) have nf: "\<not> found" by (auto split: if_splits)
  with r 3(1)[of v1 p1] have p1: "p1 = path @ [dep]" by simp
  from nf r 3(3) have "findPath_deps G to deps (v1, butlast p1) = (False, visited', path')" by simp
  from 3(2)[OF r[symmetric] _ refl this] nf p1 show ?case by simp
qed

lemma findPath_sound:
  "findPath G to current vp = (True, visited', path') \<Longrightarrow>
     \<exists>p. path' = snd vp @ p \<and> chain G (current # p) \<and> last (current # p) = to"
  "findPath_deps G to deps vp = (True, visited', path') \<Longrightarrow>
     \<exists>d p. d \<in> set deps \<and> path' = snd vp @ d # p \<and> chain G (d # p) \<and> last (d # p) = to"
proof (induction G to current vp and G to deps vp arbitrary: visited' path' and visited' path'
    rule: findPath_findPath_deps.induct)
  case (1 G to current visited path)
  show ?case
  proof (cases "current = to")
    case True
    with 1(2) show ?thesis by simp
  next
    case ne: False
    show ?thesis
    proof (cases "current \<in> set visited")
      case True
      with ne 1(2) show ?thesis by simp
    next
      case nv: False
      show ?thesis
      proof (cases "map_of G current")
        case None
        with ne nv 1(2) show ?thesis by simp
      next
        case (Some deps)
        with ne nv 1(2) have "findPath_deps G to deps (current # visited, path) = (True, visited', path')"
          by simp
        from 1(1)[OF ne nv Some this] obtain d p where
          d: "d \<in> set deps" "path' = path @ d # p" "chain G (d # p)" "last (d # p) = to"
          by auto
        from Some d(1) have "waits_on G current d" by (simp add: waits_on_def)
        with d show ?thesis by (intro exI[of _ "d # p"]) simp
      qed
    qed
  qed
next
  case (2 G to visited path)
  then show ?case by simp
next
  case (3 G to dep deps visited path)
  obtain found v1 p1 where r: "findPath G to dep (visited, path @ [dep]) = (found, v1, p1)"
    by (cases "findPath G to dep (visited, path @ [dep])") auto
  show ?case
  proof (cases found)
    case True
    with r 3(3) have e: "visited' = v1" "path' = p1" by auto
    from 3(1)[of v1 p1] r True obtain p where "p1 = (path @ [dep]) @ p" "chain G (dep # p)" "last (dep # p) = to"
      by auto
    with e show ?thesis by (intro exI[of _ dep] exI[of _ p]) simp
  next
    case False
    with r 3(3) have "findPath_deps G to deps (v1, butlast p1) = (True, visited', path')" by simp
    from 3(2)[OF r[symmetric] _ refl this] False obtain d p where
      "d \<in> set deps" "path' = butlast p1 @ d # p" "chain G (d # p)" "last (d # p) = to" by auto
    moreover from r False have "p1 = path @ [dep]" using findPath_False_path(1)[of G to dep "(visited, path @ [dep])" v1 p1] by simp
    ultimately show ?thesis by (intro exI[of _ d] exI[of _ p]) simp
  qed
qed

lemma findPath_complete:
  "findPath G to current vp = (False, visited', path') \<Longrightarrow>
     set (fst vp) \<subseteq> set visited' \<and> current \<in> set visited' \<and> to \<notin> set visited' - set (fst vp) \<and>
     (\<forall>v \<in> set visited' - set (fst vp). \<forall>w. waits_on G v w \<longrightarrow> w \<in> set visited')"
  "findPath_deps G to deps vp = (False, visited', path') \<Longrightarrow>
     set (fst vp) \<subseteq> set visited' \<and> set deps \<subseteq> set visited' \<and> to \<notin> set visited' - set (fst vp) \<and>
     (\<forall>v \<in> set visited' - set (fst vp). \<forall>w. waits_on G v w \<longrightarrow> w \<in> set visited')"
proof (induction G to current vp and G to deps vp arbitrary: visited' path' and visited' path'
    rule: findPath_findPath_deps.induct)
  case (1 G to current visited path)
  from 1(2) have ne: "current \<noteq> to" by (auto split: if_splits)
  show ?case
  proof (cases "current \<in> set visited")
    case True
    with ne 1(2) show ?thesis by auto
  next
    case nv: False
    show ?thesis
    proof (cases "map_of G current")
      case None
      with ne nv 1(2) have "visited' = current # visited" by simp
      with None ne show ?thesis by (auto simp: waits_on_def)
    next
      case (Some deps)
      with ne nv 1(2) have "findPath_deps G to deps (current # visited, path) = (False, visited', path')"
        by simp
      from 1(1)[OF ne nv Some this]
      have a: "set (current # visited) \<subseteq> set visited'" "set deps \<subseteq> set visited'"
        "to \<notin> set visited' - set (current # visited)"
        "\<forall>v \<in> set visited' - set (current # visited). \<forall>w. waits_on G v w \<longrightarrow> w \<in> set visited'"
        by simp_all
      from Some a(2) have c: "\<forall>w. waits_on G current w \<longrightarrow> w \<in> set visited'"
        by (auto simp: waits_on_def)
      from a(1) have s1: "set visited \<subseteq> set visited'" and s2: "current \<in> set visited'" by auto
      from a(3) ne have s3: "to \<notin> set visited' - set visited" by auto
      have s4: "\<forall>v \<in> set visited' - set visited. \<forall>w. waits_on G v w \<longrightarrow> w \<in> set visited'"
      proof (intro ballI allI impI)
        fix v w assume v: "v \<in> set visited' - set visited" and w: "waits_on G v w"
        show "w \<in> set visited'"
        proof (cases "v = current")
          case True
          with c w show ?thesis by blast
        next
          case False
          with v have "v \<in> set visited' - set (current # visited)" by simp
          with a(4) w show ?thesis by blast
        qed
      qed
      from s1 s2 s3 s4 show ?thesis by simp
    qed
  qed
next
  case (2 G to visited path)
  then show ?case by simp
next
  case (3 G to dep deps visited path)
  obtain found v1 p1 where r: "findPath G to dep (visited, path @ [dep]) = (found, v1, p1)"
    by (cases "findPath G to dep (visited, path @ [dep])") auto
  with 3(3) have nf: "\<not> found" by (auto split: if_splits)
  from nf r 3(1)[of v1 p1]
  have a: "set visited \<subseteq> set v1" "dep \<in> set v1" "to \<notin> set v1 - set visited"
    "\<forall>v \<in> set v1 - set visited. \<forall>w. waits_on G v w \<longrightarrow> w \<in> set v1"
    by simp_all
  from nf r 3(3) have "findPath_deps G to deps (v1, butlast p1) = (False, visited', path')" by simp
  from 3(2)[OF r[symmetric] _ refl this] nf
  have b: "set v1 \<subseteq> set visited'" "set deps \<subseteq> set visited'" "to \<notin> set visited' - set v1"
    "\<forall>v \<in> set visited' - set v1. \<forall>w. waits_on G v w \<longrightarrow> w \<in> set visited'"
    by simp_all
  from a(1) b(1) have t1: "set visited \<subseteq> set visited'" by blast
  from a(2) b(1,2) have t2: "set (dep # deps) \<subseteq> set visited'" by auto
  from a(3) b(3) have t3: "to \<notin> set visited' - set visited" by blast
  have t4: "\<forall>v \<in> set visited' - set visited. \<forall>w. waits_on G v w \<longrightarrow> w \<in> set visited'"
  proof (intro ballI allI impI)
    fix v w assume v: "v \<in> set visited' - set visited" and w: "waits_on G v w"
    show "w \<in> set visited'"
    proof (cases "v \<in> set v1")
      case True
      with v a(4) w have "w \<in> set v1" by blast
      with b(1) show ?thesis by blast
    next
      case False
      with v b(4) w show ?thesis by blast
    qed
  qed
  from t1 t2 t3 t4 show ?case by simp
qed

lemma cyclePath_list_correct:
  assumes "(a, b) \<in> (wait_edges G)\<^sup>*"
  shows "\<exists>p. cyclePath_list G a b = a # p \<and> chain G (a # p) \<and> last (a # p) = b"
proof -
  obtain found v1 p1 where r: "findPath G b a ([], [a]) = (found, v1, p1)"
    by (cases "findPath G b a ([], [a])") auto
  have found
  proof (rule ccontr)
    assume "\<not> found"
    with r findPath_complete(1)[of G b a "([], [a])" v1 p1]
    have "a \<in> set v1" "b \<notin> set v1" "\<forall>v \<in> set v1. \<forall>w. (v, w) \<in> wait_edges G \<longrightarrow> w \<in> set v1"
      by (simp_all add: wait_edges_def)
    with closed_not_reachable[OF assms] show False by blast
  qed
  with r findPath_sound(1)[of G b a "([], [a])" v1 p1]
  show ?thesis by (simp add: cyclePath_list_def)
qed

section \<open>Recording a wait edge\<close>

lemma map_of_map_at:
  "map_of (map (\<lambda>(k, deps). if k = c then (k, g deps) else (k, deps)) xs) k =
     (if k = c then map_option g (map_of xs c) else map_of xs k)"
  by (induction xs) auto

lemma map_of_record_wait:
  "map_of (record_wait c d G) k =
     (if k = c then
        Some (case map_of G c of
                None \<Rightarrow> [d]
              | Some deps \<Rightarrow> if d \<in> set deps then deps else deps @ [d])
      else map_of G k)"
  by (cases "map_of G c")
    (auto simp add: record_wait_def map_of_map_at map_add_def split: option.splits)

lemma waits_on_record_wait:
  "waits_on (record_wait c d G) a b \<longleftrightarrow> waits_on G a b \<or> (a = c \<and> b = d)"
  by (auto simp: waits_on_def map_of_record_wait split: option.splits)

lemma wait_edges_record_wait:
  "wait_edges (record_wait c d G) = insert (c, d) (wait_edges G)"
  by (auto simp: wait_edges_def waits_on_record_wait)

lemma acyclic_record_wait:
  "acyclic (wait_edges G) \<Longrightarrow> \<not> hasCyclePath G d c \<Longrightarrow> acyclic (wait_edges (record_wait c d G))"
  by (simp add: wait_edges_record_wait acyclic_insert hasCyclePath_iff)

lemma waitingFor_Promise_reject [simp]: "waitingFor (snd (Promise_reject e st)) = waitingFor st"
  by (simp add: Promise_reject_def)

lemma waitingFor_Promise_resolve [simp]: "waitingFor (snd (Promise_resolve e st)) = waitingFor st"
  by (simp add: Promise_resolve_def)

lemma waitingFor_new_Promise [simp]: "waitingFor (snd (new_Promise d st)) = waitingFor st"
  by (simp add: new_Promise_def)

lemma waitingFor_waitForDep:
  "waitingFor (snd (waitForDep tasks c d st)) =
     (if in_op d tasks \<and> c \<noteq> d \<and> \<not> hasCyclePath (waitingFor st) d c
      then record_wait c d (waitingFor st) else waitingFor st)"
  by (simp add: waitForDep_def Let_def split: option.splits)

lemma wait_edges_waitForDep:
  "wait_edges (waitingFor (snd (waitForDep tasks c d st))) =
     (if in_op d tasks \<and> c \<noteq> d \<and> \<not> hasCyclePath (waitingFor st) d c
      then insert (c, d) (wait_edges (waitingFor st)) else wait_edges (waitingFor st))"
  by (simp add: waitingFor_waitForDep wait_edges_record_wait)

lemma acyclic_waitForDep:
  "acyclic (wait_edges (waitingFor st)) \<Longrightarrow>
     acyclic (wait_edges (waitingFor (snd (waitForDep tasks c d st))))"
  by (simp add: waitingFor_waitForDep acyclic_record_wait)

lemma hasCyclePath_self: "hasCyclePath G a a"
  by (simp add: hasCyclePath_iff)

section \<open>Invariants of every run\<close>

lemma waitForDep_frame [simp]:
  "results (snd (waitForDep tasks c d st)) = results st"
  "errors (snd (waitForDep tasks c d st)) = errors st"
  "returnValue (snd (waitForDep tasks c d st)) = returnValue st"
  "units (snd (waitForDep tasks c d st)) = units st"
  "promises (snd (waitForDep tasks c d st)) = promises st"
  "calls (snd (waitForDep tasks c d st)) = calls st"
  "settled (snd (waitForDep tasks c d st)) = settled st"
  "joined (snd (waitForDep tasks c d st)) = joined st"
  by (simp_all add: waitForDep_def Promise_reject_def Promise_resolve_def new_Promise_def
      Let_def split: option.splits)

lemma run_body_preserves:
  assumes "\<And>d st. P st \<Longrightarrow> P (snd (waitForDep tasks n d st))"
  shows "P st \<Longrightarrow> P (snd (run_body tasks n b st))"
proof (induction b arbitrary: st)
  case (Get d k)
  obtain h st1 where w: "waitForDep tasks n d st = (h, st1)" by (cases "waitForDep tasks n d st")
  with assms[OF Get.prems, of d] have "P st1" by simp
  from Get.IH[OF _ this, of "k h"] w show ?case by simp
qed simp_all

lemma run_body_frame [simp]:
  "results (snd (run_body tasks n b st)) = results st"
  "errors (snd (run_body tasks n b st)) = errors st"
  "returnValue (snd (run_body tasks n b st)) = returnValue st"
  "units (snd (run_body tasks n b st)) = units st"
  "promises (snd (run_body tasks n b st)) = promises st"
  "calls (snd (run_body tasks n b st)) = calls st"
  "settled (snd (run_body tasks n b st)) = settled st"
  "joined (snd (run_body tasks n b st)) = joined st"
proof -
  show "results (snd (run_body tasks n b st)) = results st"
    by (rule run_body_preserves[where P="\<lambda>s. results s = results st"]) simp_all
  show "errors (snd (run_body tasks n b st)) = errors st"
    by (rule run_body_preserves[where P="\<lambda>s. errors s = errors st"]) simp_all
  show "returnValue (snd (run_body tasks n b st)) = returnValue st"
    by (rule run_body_preserves[where P="\<lambda>s. returnValue s = returnValue st"]) simp_all
  show "units (snd (run_body tasks n b st)) = units st"
    by (rule run_body_preserves[where P="\<lambda>s. units s = units st"]) simp_all
  show "promises (snd (run_body tasks n b st)) = promises st"
    by (rule run_body_preserves[where P="\<lambda>s. promises s = promises st"]) simp_all
  show "calls (snd (run_body tasks n b st)) = calls st"
    by (rule run_body_preserves[where P="\<lambda>s. calls s = calls st"]) simp_all
  show "settled (snd (run_body tasks n b st)) = settled st"
    by (rule run_body_preserves[where P="\<lambda>s. settled s = settled st"]) simp_all
  show "joined (snd (run_body tasks n b st)) = joined st"
    by (rule run_body_preserves[where P="\<lambda>s. joined s = joined st"]) simp_all
qed

lemma queue_invD:
  "queue_inv st \<Longrightarrow> queued st d h \<Longrightarrow> h < length (heap st)"
  "queue_inv st \<Longrightarrow> queued st d h \<Longrightarrow> heap st ! h = stored st d"
  "queue_inv st \<Longrightarrow> queued st d h \<Longrightarrow> queued st d' h \<Longrightarrow> d' = d"
  unfolding queue_inv_def by blast+

lemma stored_frame:
  "results st' = results st \<Longrightarrow> errors st' = errors st \<Longrightarrow> stored st' = stored st"
  unfolding stored_def fun_eq_iff by simp

lemma queued_frame:
  "resolvers st' = resolvers st \<Longrightarrow> queued st' = queued st"
  unfolding queued_def fun_eq_iff by simp

lemma queue_inv_append:
  assumes "queue_inv st"
  shows "queue_inv (st\<lparr>heap := heap st @ [p]\<rparr>)"
proof -
  let ?st = "st\<lparr>heap := heap st @ [p]\<rparr>"
  have q: "queued ?st = queued st" by (rule queued_frame) simp
  have s: "stored ?st = stored st" by (rule stored_frame) simp_all
  show ?thesis
    unfolding queue_inv_def q s
    using queue_invD[OF assms] by (simp add: nth_append less_Suc_eq)
qed

lemma queue_inv_waitingFor:
  "queue_inv (st\<lparr>waitingFor := G\<rparr>) = queue_inv st"
  by (simp add: queue_inv_def stored_def queued_def)

lemma queued_new_Promise:
  "queued (snd (new_Promise d st)) x h \<longleftrightarrow> queued st x h \<or> (x = d \<and> h = length (heap st))"
  by (cases "resolvers st d") (auto simp: queued_def new_Promise_def)

lemma queue_inv_new_Promise:
  assumes "queue_inv st" "results st d = None" "errors st d = None"
  shows "queue_inv (snd (new_Promise d st))"
proof -
  let ?st = "snd (new_Promise d st)"
  have s: "stored ?st = stored st" by (rule stored_frame) (simp_all add: new_Promise_def)
  have hp: "heap ?st = heap st @ [None]" by (simp add: new_Promise_def)
  have sd: "stored st d = None" using assms(2,3) by (simp add: stored_def)
  show ?thesis
    unfolding queue_inv_def s hp queued_new_Promise
  proof (intro allI impI)
    fix x h
    assume "queued st x h \<or> x = d \<and> h = length (heap st)"
    then show "h < length (heap st @ [None]) \<and> (heap st @ [None]) ! h = stored st x \<and>
      (\<forall>d'. queued st d' h \<or> d' = d \<and> h = length (heap st) \<longrightarrow> d' = x)"
    proof
      assume o: "queued st x h"
      have "\<And>d'. queued st d' h \<Longrightarrow> d' = x" using queue_invD(3)[OF assms(1) o] by blast
      moreover have "\<not> (h = length (heap st))" using queue_invD(1)[OF assms(1) o] by simp
      ultimately show ?thesis
        using queue_invD(1)[OF assms(1) o] queue_invD(2)[OF assms(1) o] by (auto simp: nth_append)
    next
      assume n: "x = d \<and> h = length (heap st)"
      have "\<And>d'. queued st d' h \<Longrightarrow> False"
        using queue_invD(1)[OF assms(1)] n by fastforce
      with n sd show ?thesis by auto
    qed
  qed
qed

lemma queue_inv_waitForDep:
  assumes "queue_inv st"
  shows "queue_inv (snd (waitForDep tasks c d st))"
proof -
  have a: "queue_inv (snd (Promise_reject e (st\<lparr>waitingFor := G\<rparr>)))" for e G
    using queue_inv_append[of "st\<lparr>waitingFor := G\<rparr>" "Some (Rejected e)"] assms
    by (simp add: Promise_reject_def queue_inv_waitingFor)
  have b: "queue_inv (snd (Promise_resolve v (st\<lparr>waitingFor := G\<rparr>)))" for v G
    using queue_inv_append[of "st\<lparr>waitingFor := G\<rparr>" "Some (Fulfilled v)"] assms
    by (simp add: Promise_resolve_def queue_inv_waitingFor)
  have a0: "queue_inv (snd (Promise_reject e st))" for e
    using queue_inv_append[of st "Some (Rejected e)"] assms by (simp add: Promise_reject_def)
  have c: "results st d = None \<Longrightarrow> errors st d = None \<Longrightarrow>
     queue_inv (snd (new_Promise d (st\<lparr>waitingFor := G\<rparr>)))" for G
    using assms by (intro queue_inv_new_Promise) (simp_all add: queue_inv_waitingFor)
  show ?thesis
    by (simp add: waitForDep_def Let_def a a0 b c split: option.splits)
qed

lemma queue_inv_run_body:
  "queue_inv st \<Longrightarrow> queue_inv (snd (run_body tasks n b st))"
  by (rule run_body_preserves) (rule queue_inv_waitForDep)

lemma length_fold_settle [simp]: "length (fold (settle out) q H) = length H"
  by (induction q arbitrary: H) (simp_all add: settle_def)

lemma nth_fold_settle:
  "fold (settle out) q H ! h =
     (if h \<in> set q \<and> h < length H \<and> H ! h = None then Some out else H ! h)"
proof (induction q arbitrary: H)
  case Nil
  then show ?case by simp
next
  case (Cons a q)
  show ?case
    by (simp add: Cons.IH) (auto simp: settle_def nth_list_update)
qed

lemma heap_drain:
  "heap (drain n out st) ! h =
     (if queued st n h \<and> h < length (heap st) \<and> heap st ! h = None then Some out else heap st ! h)"
  by (simp add: drain_def queued_def nth_fold_settle split: option.splits)

lemma length_heap_drain [simp]: "length (heap (drain n out st)) = length (heap st)"
  by (simp add: drain_def split: option.splits)

lemma drain_frame [simp]:
  "results (drain n out st) = results st"
  "errors (drain n out st) = errors st"
  "resolvers (drain n out st) = resolvers st"
  "returnValue (drain n out st) = returnValue st"
  "waitingFor (drain n out st) = waitingFor st"
  "units (drain n out st) = units st"
  "promises (drain n out st) = promises st"
  "calls (drain n out st) = calls st"
  "settled (drain n out st) = settled st"
  "joined (drain n out st) = joined st"
  by (simp_all add: drain_def split: option.splits)

lemma queue_inv_handleResult:
  assumes "queue_inv st" "results st n = None" "errors st n = None"
  shows "queue_inv (handleResult hs n v st)"
proof -
  let ?st = "handleResult hs n v st"
  have q: "queued ?st = queued st" by (rule queued_frame) (simp add: handleResult_def)
  have s: "\<And>d. stored ?st d = (if d = n then Some (Fulfilled v) else stored st d)"
    by (simp add: stored_def handleResult_def)
  have sn: "stored st n = None" using assms(2,3) by (simp add: stored_def)
  have h: "\<And>h. heap ?st ! h =
     (if queued st n h \<and> h < length (heap st) \<and> heap st ! h = None then Some (Fulfilled v) else heap st ! h)"
    by (simp add: handleResult_def heap_drain queued_def)
  have l: "length (heap ?st) = length (heap st)" by (simp add: handleResult_def)
  show ?thesis
    unfolding queue_inv_def q l
  proof (intro allI impI)
    fix d x assume o: "queued st d x"
    note i = queue_invD(1)[OF assms(1) o] queue_invD(2)[OF assms(1) o] queue_invD(3)[OF assms(1) o]
    have u: "\<forall>d'. queued st d' x \<longrightarrow> d' = d" using i(3) by blast
    have "heap ?st ! x = stored ?st d"
    proof (cases "d = n")
      case True
      with i(1,2) sn o show ?thesis by (simp add: h s)
    next
      case False
      with u have "\<not> queued st n x" by blast
      with i(2) False show ?thesis by (simp add: h s)
    qed
    with i(1) u
    show "x < length (heap st) \<and> heap ?st ! x = stored ?st d \<and> (\<forall>d'. queued st d' x \<longrightarrow> d' = d)"
      by blast
  qed
qed

lemma queue_inv_handleError:
  assumes "queue_inv st" "results st n = None" "errors st n = None"
  shows "queue_inv (handleError hs n e st)"
proof -
  let ?st = "handleError hs n e st"
  have q: "queued ?st = queued st" by (rule queued_frame) (simp add: handleError_def)
  have s: "\<And>d. stored ?st d = (if d = n then Some (Rejected e) else stored st d)"
    using assms(2) by (simp add: stored_def handleError_def)
  have sn: "stored st n = None" using assms(2,3) by (simp add: stored_def)
  have h: "\<And>h. heap ?st ! h =
     (if queued st n h \<and> h < length (heap st) \<and> heap st ! h = None then Some (Rejected e) else heap st ! h)"
    by (simp add: handleError_def heap_drain queued_def)
  have l: "length (heap ?st) = length (heap st)" by (simp add: handleError_def)
  show ?thesis
    unfolding queue_inv_def q l
  proof (intro allI impI)
    fix d x assume o: "queued st d x"
    note i = queue_invD(1)[OF assms(1) o] queue_invD(2)[OF assms(1) o] queue_invD(3)[OF assms(1) o]
    have u: "\<forall>d'. queued st d' x \<longrightarrow> d' = d" using i(3) by blast
    have "heap ?st ! x = stored ?st d"
    proof (cases "d = n")
      case True
      with i(1,2) sn o show ?thesis by (simp add: h s)
    next
      case False
      with u have "\<not> queued st n x" by blast
      with i(2) False show ?thesis by (simp add: h s)
    qed
    with i(1) u
    show "x < length (heap st) \<and> heap ?st ! x = stored ?st d \<and> (\<forall>d'. queued st d' x \<longrightarrow> d' = d)"
      by blast
  qed
qed

lemma unit_ok_fresh:
  "unit_ok hs st n \<Longrightarrow> promises st n = None \<Longrightarrow>
     units st n = None \<and> results st n = None \<and> errors st n = None \<and>
     n \<notin> set (settled st)"
  by (simp add: unit_ok_def)

lemma unit_ok_running:
  assumes "unit_ok hs st n" "units st n \<noteq> None"
  shows "promises st n = Some TaskPending \<and> results st n = None \<and> errors st n = None \<and>
     n \<notin> set (settled st)"
proof (cases "promises st n")
  case None
  with assms show ?thesis by (simp add: unit_ok_def)
next
  case (Some p)
  show ?thesis
  proof (cases p)
    case TaskPending
    with Some assms show ?thesis by (simp add: unit_ok_def)
  next
    case TaskFulfilled
    with Some assms show ?thesis by (simp add: unit_ok_def)
  next
    case (TaskRejected e)
    with Some assms show ?thesis by (simp add: unit_ok_def)
  qed
qed

lemma unit_ok_settledI:
  "promises st n = Some TaskFulfilled \<Longrightarrow> units st n = None \<Longrightarrow> n \<in> set (settled st) \<Longrightarrow>
   (errors st n = None \<and> results st n \<noteq> None
         \<or> hs \<and> results st n = None \<and> errors st n \<noteq> None) \<Longrightarrow>
   unit_ok hs st n"
  unfolding unit_ok_def by simp

lemma unit_ok_rejectedI:
  "promises st n = Some (TaskRejected e) \<Longrightarrow> \<not> hs \<Longrightarrow> units st n = None \<Longrightarrow>
   n \<in> set (settled st) \<Longrightarrow> results st n = None \<Longrightarrow> errors st n = Some e \<Longrightarrow>
   unit_ok hs st n"
  unfolding unit_ok_def by simp

lemma unit_ok_pendingI:
  "promises st n = Some TaskPending \<Longrightarrow> units st n \<noteq> None \<Longrightarrow> results st n = None \<Longrightarrow>
   errors st n = None \<Longrightarrow> n \<notin> set (settled st) \<Longrightarrow>
   unit_ok hs st n"
  unfolding unit_ok_def by simp

lemma unit_ok_cong:
  "promises st' n = promises st n \<Longrightarrow> units st' n = units st n \<Longrightarrow> results st' n = results st n \<Longrightarrow>
   errors st' n = errors st n \<Longrightarrow>
   (n \<in> set (settled st')) = (n \<in> set (settled st)) \<Longrightarrow>
   unit_ok hs st' n = unit_ok hs st n"
  unfolding unit_ok_def by simp

lemma unit_ok_resume:
  assumes "unit_ok hs st m" "units st n \<noteq> None" "unit_ok hs st n"
  shows "unit_ok hs (resume tasks n b st) m"
proof -
  obtain b' st1 where r: "run_body tasks n b st = (b', st1)" by (cases "run_body tasks n b st")
  have f: "results st1 = results st" "errors st1 = errors st" "returnValue st1 = returnValue st"
    "units st1 = units st" "promises st1 = promises st" "settled st1 = settled st"
    using run_body_frame[of tasks n b st] r by simp_all
  show ?thesis
  proof (cases "m = n")
    case True
    from unit_ok_running[OF assms(3,2)] show ?thesis
      unfolding True by (intro unit_ok_pendingI) (simp_all add: resume_def r f)
  next
    case False
    have "unit_ok hs (resume tasks n b st) m = unit_ok hs st m"
      by (rule unit_ok_cong) (simp_all add: resume_def r f False)
    with assms show ?thesis by simp
  qed
qed

lemma unit_ok_try_end:
  assumes "unit_ok hs st m" "units st n \<noteq> None" "unit_ok hs st n"
  shows "unit_ok hs (try_end hs n v st) m"
proof (cases "m = n")
  case True
  from unit_ok_running[OF assms(3,2)] show ?thesis
    unfolding True
    by (intro unit_ok_settledI) (simp_all add: try_end_def handleResult_def Let_def)
next
  case False
  have "unit_ok hs (try_end hs n v st) m = unit_ok hs st m"
    by (rule unit_ok_cong) (simp_all add: try_end_def handleResult_def Let_def False)
  with assms show ?thesis by simp
qed

lemma unit_ok_catch_block:
  assumes "unit_ok hs st m" "unit_ok hs st n"
    "promises st n = None \<or> units st n \<noteq> None"
  shows "unit_ok hs (catch_block hs n e st) m"
proof (cases "m = n")
  case True
  from assms(3) have fr: "results st n = None \<and> errors st n = None \<and>
     n \<notin> set (settled st)"
  proof
    assume "promises st n = None"
    from unit_ok_fresh[OF assms(2) this] show ?thesis by blast
  next
    assume "units st n \<noteq> None"
    from unit_ok_running[OF assms(2) this] show ?thesis by blast
  qed
  show ?thesis
  proof (cases hs)
    case hs: True
    from fr show ?thesis
      unfolding \<open>m = n\<close>
      by (intro unit_ok_settledI) (simp_all add: catch_block_def handleError_def Let_def hs)
  next
    case hs: False
    from fr show ?thesis
      unfolding \<open>m = n\<close>
      by (intro unit_ok_rejectedI[where e=e]) (simp_all add: catch_block_def handleError_def Let_def hs)
  qed
next
  case False
  have "unit_ok hs (catch_block hs n e st) m = unit_ok hs st m"
    by (rule unit_ok_cong) (simp_all add: catch_block_def handleError_def Let_def False)
  with assms show ?thesis by simp
qed

lemma queue_inv_cong:
  "heap st' = heap st \<Longrightarrow> resolvers st' = resolvers st \<Longrightarrow> results st' = results st \<Longrightarrow>
   errors st' = errors st \<Longrightarrow> queue_inv st' = queue_inv st"
  by (simp add: queue_inv_def stored_def queued_def)

lemma acyclic_run_body:
  "acyclic (wait_edges (waitingFor st)) \<Longrightarrow>
     acyclic (wait_edges (waitingFor (snd (run_body tasks n b st))))"
  by (rule run_body_preserves) (rule acyclic_waitForDep)

lemma waitingFor_handlers [simp]:
  "waitingFor (try_end hs n v st) = waitingFor st"
  "waitingFor (catch_block hs n e st) = waitingFor st"
  by (simp_all add: try_end_def catch_block_def handleResult_def handleError_def Let_def)

lemma run_inv_resume:
  assumes "run_inv hs st" "units st n \<noteq> None"
  shows "run_inv hs (resume tasks n b st)"
proof -
  obtain b' st1 where r: "run_body tasks n b st = (b', st1)" by (cases "run_body tasks n b st")
  have q: "queue_inv st1" using queue_inv_run_body[of st tasks n b] assms(1) r
    by (simp add: run_inv_def)
  have "queue_inv (resume tasks n b st) = queue_inv st1"
    by (rule queue_inv_cong) (simp_all add: resume_def r)
  moreover have "acyclic (wait_edges (waitingFor (resume tasks n b st)))"
    using acyclic_run_body[of st tasks n b] assms(1) r by (simp add: run_inv_def resume_def)
  moreover have "\<forall>m. unit_ok hs (resume tasks n b st) m"
    using assms unit_ok_resume[of hs st _ n tasks b] by (simp add: run_inv_def)
  ultimately show ?thesis using q by (simp add: run_inv_def)
qed

lemma run_inv_try_end:
  assumes "run_inv hs st" "units st n \<noteq> None"
  shows "run_inv hs (try_end hs n v st)"
proof -
  from assms have u: "unit_ok hs st n" by (simp add: run_inv_def)
  from unit_ok_running[OF u assms(2)] have fr: "results st n = None" "errors st n = None" by simp_all
  have "queue_inv (try_end hs n v st) = queue_inv (handleResult hs n v st)"
    by (rule queue_inv_cong) (simp_all add: try_end_def Let_def)
  moreover have "queue_inv (handleResult hs n v st)"
    using assms(1) fr by (intro queue_inv_handleResult) (simp_all add: run_inv_def)
  moreover have "\<forall>m. unit_ok hs (try_end hs n v st) m"
    using assms u unit_ok_try_end[of hs st _ n v] by (simp add: run_inv_def)
  ultimately show ?thesis using assms(1) by (simp add: run_inv_def)
qed

lemma run_inv_catch_block:
  assumes "run_inv hs st" "promises st n = None \<or> units st n \<noteq> None"
  shows "run_inv hs (catch_block hs n e st)"
proof -
  from assms have u: "unit_ok hs st n" by (simp add: run_inv_def)
  from assms(2) have fr: "results st n = None \<and> errors st n = None"
  proof
    assume "promises st n = None"
    from unit_ok_fresh[OF u this] show ?thesis by blast
  next
    assume "units st n \<noteq> None"
    from unit_ok_running[OF u this] show ?thesis by blast
  qed
  have "queue_inv (catch_block hs n e st) = queue_inv (handleError hs n e st)"
    by (rule queue_inv_cong) (simp_all add: catch_block_def Let_def)
  moreover have "queue_inv (handleError hs n e st)"
    using assms(1) fr by (intro queue_inv_handleError) (simp_all add: run_inv_def)
  moreover have "\<forall>m. unit_ok hs (catch_block hs n e st) m"
    using assms u unit_ok_catch_block[of hs st _ n e] by (simp add: run_inv_def)
  ultimately show ?thesis using assms(1) by (simp add: run_inv_def)
qed

lemma run_inv_advance:
  assumes "run_inv hs st"
  shows "run_inv hs (advance hs tasks n st)"
proof (cases "units st n")
  case None
  with assms show ?thesis by (simp add: advance_def)
next
  case (Some b)
  then have ne: "units st n \<noteq> None" by simp
  show ?thesis
  proof (cases b)
    case (Return v)
    with Some run_inv_try_end[OF assms ne] show ?thesis by (simp add: advance_def)
  next
    case (Throw e)
    with Some run_inv_catch_block[OF assms, of n e] ne show ?thesis by (simp add: advance_def)
  next
    case (Get d k)
    with Some run_inv_resume[OF assms ne] show ?thesis by (simp add: advance_def)
  next
    case (Await h k)
    with Some run_inv_resume[OF assms ne] assms show ?thesis
      by (simp add: advance_def split: option.splits)
  next
    case (Pause b')
    with Some run_inv_resume[OF assms ne] show ?thesis by (simp add: advance_def)
  qed
qed

lemma aggregate_frame [simp]:
  "results (aggregate hs ks st) = results st"
  "errors (aggregate hs ks st) = errors st"
  "resolvers (aggregate hs ks st) = resolvers st"
  "returnValue (aggregate hs ks st) = returnValue st"
  "waitingFor (aggregate hs ks st) = waitingFor st"
  "heap (aggregate hs ks st) = heap st"
  "units (aggregate hs ks st) = units st"
  "promises (aggregate hs ks st) = promises st"
  "calls (aggregate hs ks st) = calls st"
  "settled (aggregate hs ks st) = settled st"
  by (simp_all add: aggregate_def split: call.splits task_promise.splits)

lemma run_inv_aggregate:
  "run_inv hs (aggregate hs' ks st) = run_inv hs st"
proof -
  have "queue_inv (aggregate hs' ks st) = queue_inv st"
    by (rule queue_inv_cong) simp_all
  moreover have "unit_ok hs (aggregate hs' ks st) m = unit_ok hs st m" for m
    by (rule unit_ok_cong) simp_all
  ultimately show ?thesis by (simp add: run_inv_def)
qed

lemma run_inv_step: "run_inv hs st \<Longrightarrow> run_inv hs (step hs tasks n st)"
  by (simp add: step_def run_inv_aggregate run_inv_advance)

lemma run_inv_task_start:
  assumes "run_inv hs st" "promises st n = None"
  shows "run_inv hs (task_start hs tasks n st)"
proof -
  have c: "run_inv hs (catch_block hs n e st)" for e
    using run_inv_catch_block[OF assms(1), of n e] assms(2) by simp
  show ?thesis
  proof (cases "map_of (own tasks) n")
    case None
    with c show ?thesis by (simp add: task_start_def)
  next
    case (Some en)
    show ?thesis
    proof (cases en)
      case NotCallable
      with Some c show ?thesis by (simp add: task_start_def)
    next
      case (Callable taskFn)
      let ?s0 = "st\<lparr>calls := calls st @ [n]\<rparr>"
      obtain b st1 where r: "run_body tasks n taskFn ?s0 = (b, st1)"
        by (cases "run_body tasks n taskFn ?s0")
      have f: "results st1 = results st" "errors st1 = errors st" "returnValue st1 = returnValue st"
        "units st1 = units st" "promises st1 = promises st" "settled st1 = settled st"
        using run_body_frame[of tasks n taskFn ?s0] r by simp_all
      have q0: "queue_inv ?s0 = queue_inv st" by (rule queue_inv_cong) simp_all
      have u0: "unit_ok hs ?s0 m = unit_ok hs st m" for m by (rule unit_ok_cong) simp_all
      have i0: "run_inv hs ?s0" using assms(1) by (simp add: run_inv_def q0 u0)
      have q1: "queue_inv st1" using queue_inv_run_body[of ?s0 tasks n taskFn] i0 r
        by (simp add: run_inv_def)
      have a1: "acyclic (wait_edges (waitingFor st1))"
        using acyclic_run_body[of ?s0 tasks n taskFn] i0 r by (simp add: run_inv_def)
      have u1: "unit_ok hs st1 m = unit_ok hs st m" for m by (rule unit_ok_cong) (simp_all add: f)
      have i1: "run_inv hs st1" using assms(1) q1 a1 by (simp add: run_inv_def u1)
      let ?s2 = "st1\<lparr>units := (units st1)(n \<mapsto> b), promises := (promises st1)(n \<mapsto> TaskPending)\<rparr>"
      have i2: "run_inv hs ?s2"
      proof -
        have "queue_inv ?s2 = queue_inv st1" by (rule queue_inv_cong) simp_all
        moreover have "unit_ok hs ?s2 m" for m
        proof (cases "m = n")
          case True
          from assms have "unit_ok hs st n" by (simp add: run_inv_def)
          from unit_ok_fresh[OF this assms(2)] show ?thesis
            unfolding True by (intro unit_ok_pendingI) (simp_all add: f)
        next
          case False
          have "unit_ok hs ?s2 m = unit_ok hs st m"
            by (rule unit_ok_cong) (simp_all add: f False)
          with assms(1) show ?thesis by (simp add: run_inv_def)
        qed
        ultimately show ?thesis using q1 a1 by (simp add: run_inv_def)
      qed
      have i3: "run_inv hs (catch_block hs n e st1)" for e
        using run_inv_catch_block[OF i1, of n e] assms(2) f by simp
      show ?thesis
        using Some Callable r i2 i3
        by (cases b) (simp_all add: task_start_def)
    qed
  qed
qed

lemma run_inv_initial: "run_inv hs initial"
  by (simp add: run_inv_def queue_inv_def queued_def unit_ok_def initial_def wait_edges_def
      waits_on_def acyclic_def)

lemma handlers_frame [simp]:
  "promises (handleResult hs n v st) = promises st"
  "promises (handleError hs n e st) = promises st"
  "calls (handleResult hs n v st) = calls st"
  "calls (handleError hs n e st) = calls st"
  "units (handleResult hs n v st) = units st"
  "units (handleError hs n e st) = units st"
  "settled (handleResult hs n v st) = settled st"
  "settled (handleError hs n e st) = settled st"
  "joined (handleResult hs n v st) = joined st"
  "joined (handleError hs n e st) = joined st"
  "errors (handleResult hs n v st) = errors st"
  "results (handleError hs n e st) = results st"
  "results (handleResult hs n v st) = (results st)(n \<mapsto> v)"
  "errors (handleError hs n e st) = (errors st)(n \<mapsto> e)"
  by (simp_all add: handleResult_def handleError_def)

lemma promises_catch_block:
  "promises (catch_block hs n e st) = (promises st)(n \<mapsto> (if hs then TaskFulfilled else TaskRejected e))"
  by (simp add: catch_block_def Let_def)

lemma promises_try_end:
  "promises (try_end hs n v st) = (promises st)(n \<mapsto> TaskFulfilled)"
  by (simp add: try_end_def Let_def)

lemma promises_resume [simp]: "promises (resume tasks n b st) = promises st"
proof -
  obtain b' st1 where r: "run_body tasks n b st = (b', st1)" by (cases "run_body tasks n b st")
  with run_body_frame(5)[of tasks n b st] show ?thesis by (simp add: resume_def)
qed

lemma promises_task_start_other:
  "m \<noteq> n \<Longrightarrow> promises (task_start hs tasks n st) m = promises st m"
proof -
  assume mn: "m \<noteq> n"
  show ?thesis
  proof (cases "map_of (own tasks) n")
    case None
    with mn show ?thesis by (simp add: task_start_def promises_catch_block)
  next
    case (Some en)
    show ?thesis
    proof (cases en)
      case NotCallable
      with Some mn show ?thesis by (simp add: task_start_def promises_catch_block)
    next
      case (Callable taskFn)
      let ?s0 = "st\<lparr>calls := calls st @ [n]\<rparr>"
      obtain b st1 where r: "run_body tasks n taskFn ?s0 = (b, st1)"
        by (cases "run_body tasks n taskFn ?s0")
      with run_body_frame(5)[of tasks n taskFn ?s0] have f: "promises st1 = promises st" by simp
      show ?thesis using Some Callable r f mn
        by (cases b) (simp_all add: task_start_def promises_catch_block)
    qed
  qed
qed

lemma promises_task_start_self:
  "promises (task_start hs tasks n st) n \<noteq> None"
proof (cases "map_of (own tasks) n")
  case None
  then show ?thesis by (simp add: task_start_def promises_catch_block)
next
  case (Some en)
  show ?thesis
  proof (cases en)
    case NotCallable
    with Some show ?thesis by (simp add: task_start_def promises_catch_block)
  next
    case (Callable taskFn)
    let ?s0 = "st\<lparr>calls := calls st @ [n]\<rparr>"
    obtain b st1 where r: "run_body tasks n taskFn ?s0 = (b, st1)"
      by (cases "run_body tasks n taskFn ?s0")
    show ?thesis using Some Callable r
      by (cases b) (simp_all add: task_start_def promises_catch_block)
  qed
qed

lemma launch_inv:
  "distinct ks \<Longrightarrow> run_inv hs st \<Longrightarrow> \<forall>k \<in> set ks. promises st k = None \<Longrightarrow>
     run_inv hs (fold (task_start hs tasks) ks st) \<and>
     (\<forall>m. promises (fold (task_start hs tasks) ks st) m = None \<longleftrightarrow>
          promises st m = None \<and> m \<notin> set ks)"
proof (induction ks arbitrary: st)
  case Nil
  then show ?case by simp
next
  case (Cons k ks)
  let ?s = "task_start hs tasks k st"
  from Cons.prems have i: "run_inv hs ?s" by (intro run_inv_task_start) simp_all
  have "\<forall>x \<in> set ks. promises ?s x = None"
  proof
    fix x assume x: "x \<in> set ks"
    with Cons.prems(1) have "x \<noteq> k" by auto
    from promises_task_start_other[OF this, of hs tasks st] x Cons.prems(3)
    show "promises ?s x = None" by simp
  qed
  with Cons.IH[OF _ i] Cons.prems(1)
  have r: "run_inv hs (fold (task_start hs tasks) ks ?s)"
    "\<forall>m. promises (fold (task_start hs tasks) ks ?s) m = None \<longleftrightarrow>
          promises ?s m = None \<and> m \<notin> set ks"
    by simp_all
  have "promises ?s m = None \<longleftrightarrow> promises st m = None \<and> m \<noteq> k" for m
    using promises_task_start_other[of m k hs tasks st] promises_task_start_self[of hs tasks k st]
    by (cases "m = k") auto
  with r show ?case by simp
qed

lemma distinct_Object_keys [simp]: "distinct (Object_keys tasks)"
  by (simp add: Object_keys_def)


lemma executeTasksInternal_inv:
  "run_inv hs (executeTasksInternal tasks hs) \<and> launched tasks (executeTasksInternal tasks hs)"
  using launch_inv[of "Object_keys tasks" hs initial tasks] run_inv_initial[of hs]
  by (simp add: executeTasksInternal_def run_inv_aggregate launched_def initial_def)

lemma promises_advance_dom:
  assumes "run_inv hs st"
  shows "promises (advance hs tasks n st) m = None \<longleftrightarrow> promises st m = None"
proof (cases "units st n")
  case None
  then show ?thesis by (simp add: advance_def)
next
  case (Some b)
  from assms have "unit_ok hs st n" by (simp add: run_inv_def)
  from unit_ok_running[OF this] Some have p: "promises st n \<noteq> None" by simp
  show ?thesis
    using Some p
    by (cases b) (auto simp: advance_def promises_try_end promises_catch_block split: option.splits)
qed

lemma launched_step:
  "run_inv hs st \<Longrightarrow> launched tasks st \<Longrightarrow> launched tasks (step hs tasks' n st)"
  by (simp add: launched_def step_def promises_advance_dom)

lemma run_inv_fold_step:
  "run_inv hs st \<Longrightarrow> launched tasks st \<Longrightarrow>
     run_inv hs (fold (step hs tasks) schedule st) \<and> launched tasks (fold (step hs tasks) schedule st)"
  by (induction schedule arbitrary: st) (simp_all add: run_inv_step launched_step)

lemma run_inv_run: "run_inv hs (run hs tasks schedule)" "launched tasks (run hs tasks schedule)"
  using run_inv_fold_step[of hs "executeTasksInternal tasks hs" tasks schedule]
    executeTasksInternal_inv[of hs tasks]
  by (simp_all add: run_def)

lemma calls_catch_block [simp]: "calls (catch_block hs n e st) = calls st"
  by (simp add: catch_block_def Let_def)

lemma calls_try_end [simp]: "calls (try_end hs n e st) = calls st"
  by (simp add: try_end_def Let_def)

lemma calls_resume [simp]: "calls (resume tasks n b st) = calls st"
proof -
  obtain b' st1 where r: "run_body tasks n b st = (b', st1)" by (cases "run_body tasks n b st")
  with run_body_frame(6)[of tasks n b st] show ?thesis by (simp add: resume_def)
qed



lemma calls_advance [simp]: "calls (advance hs tasks n st) = calls st"
  by (simp add: advance_def split: option.splits body.splits)

lemma calls_step [simp]: "calls (step hs tasks n st) = calls st"
  by (simp add: step_def)

lemma calls_fold_step [simp]: "calls (fold (step hs tasks) schedule st) = calls st"
  by (induction schedule arbitrary: st) simp_all



lemma catch_block_summary:
  "errors (catch_block hs n e st) = (errors st)(n \<mapsto> e)"
  "settled (catch_block hs n e st) = settled st @ [n]"
  by (simp_all add: catch_block_def Let_def)

lemma try_end_summary:
  "errors (try_end hs n v st) = errors st"
  "results (try_end hs n v st) = (results st)(n \<mapsto> v)"
  "settled (try_end hs n v st) = settled st @ [n]"
  by (simp_all add: try_end_def Let_def)

lemma resume_summary [simp]:
  "errors (resume tasks n b st) = errors st"
  "results (resume tasks n b st) = results st"
  "settled (resume tasks n b st) = settled st"
  "returnValue (resume tasks n b st) = returnValue st"
  "joined (resume tasks n b st) = joined st"
proof -
  obtain b' st1 where r: "run_body tasks n b st = (b', st1)" by (cases "run_body tasks n b st")
  with run_body_frame[of tasks n b st]
  show "errors (resume tasks n b st) = errors st"
    "results (resume tasks n b st) = results st"
    "settled (resume tasks n b st) = settled st"
    "returnValue (resume tasks n b st) = returnValue st"
    "joined (resume tasks n b st) = joined st"
    by (simp_all add: resume_def)
qed

lemma task_start_summary:
  assumes "errors st k = None"
  shows "(\<forall>m. m \<noteq> k \<longrightarrow> errors (task_start hs tasks k st) m = errors st m) \<and>
     (errors (task_start hs tasks k st) k = None \<and>
        settled (task_start hs tasks k st) = settled st \<and>
        promises (task_start hs tasks k st) k = Some TaskPending
      \<or> (\<exists>e. errors (task_start hs tasks k st) k = Some e \<and>
            settled (task_start hs tasks k st) = settled st @ [k] \<and>
            promises (task_start hs tasks k st) k = Some (if hs then TaskFulfilled else TaskRejected e)))"
proof -
  have c: "(\<forall>m. m \<noteq> k \<longrightarrow> errors (catch_block hs k e s) m = errors st m) \<and>
     (\<exists>e'. errors (catch_block hs k e s) k = Some e' \<and>
            settled (catch_block hs k e s) = settled st @ [k] \<and>
            promises (catch_block hs k e s) k = Some (if hs then TaskFulfilled else TaskRejected e'))"
    if "errors s = errors st" "settled s = settled st" for e s
    using that by (simp add: catch_block_summary promises_catch_block)
  show ?thesis
  proof (cases "map_of (own tasks) k")
    case None
    with c[of st] show ?thesis by (simp add: task_start_def)
  next
    case (Some en)
    show ?thesis
    proof (cases en)
      case NotCallable
      with Some c[of st] show ?thesis by (simp add: task_start_def)
    next
      case (Callable taskFn)
      let ?s0 = "st\<lparr>calls := calls st @ [k]\<rparr>"
      obtain b st1 where r: "run_body tasks k taskFn ?s0 = (b, st1)"
        by (cases "run_body tasks k taskFn ?s0")
      with run_body_frame[of tasks k taskFn ?s0]
      have f: "errors st1 = errors st" "settled st1 = settled st" by simp_all
      show ?thesis
      proof (cases "\<exists>e. b = Throw e")
        case True
        then obtain e where "b = Throw e" by blast
        with Some Callable r c[OF f, of e] show ?thesis by (simp add: task_start_def)
      next
        case False
        with Some Callable r f assms show ?thesis
          by (cases b) (simp_all add: task_start_def)
      qed
    qed
  qed
qed

lemma launch_order_step:
  assumes "launch_order ps st" "k \<notin> set ps" "errors st k = None"
  shows "launch_order (ps @ [k]) (task_start False tasks k st)"
proof -
  let ?s = "task_start False tasks k st"
  from task_start_summary[OF assms(3), of False tasks]
  have o: "\<And>m. m \<noteq> k \<Longrightarrow> errors ?s m = errors st m"
    and d: "errors ?s k = None \<and> settled ?s = settled st \<and> promises ?s k = Some TaskPending
      \<or> (\<exists>e. errors ?s k = Some e \<and> settled ?s = settled st @ [k] \<and>
            promises ?s k = Some (TaskRejected e))"
    by simp_all
  have fl: "filter (\<lambda>n. errors ?s n \<noteq> None) ps = filter (\<lambda>n. errors st n \<noteq> None) ps"
  proof (rule filter_cong[OF refl])
    fix x assume "x \<in> set ps"
    with assms(2) have "x \<noteq> k" by auto
    from o[OF this] show "(errors ?s x \<noteq> None) = (errors st x \<noteq> None)" by simp
  qed
  have pr: "\<forall>n \<in> set ps. promises ?s n =
        Some (if errors ?s n = None then TaskPending else TaskRejected (the (errors ?s n)))"
  proof
    fix n assume n: "n \<in> set ps"
    with assms(2) have nk: "n \<noteq> k" by auto
    from promises_task_start_other[OF nk, of False tasks st] o[OF nk] n assms(1)
    show "promises ?s n = Some (if errors ?s n = None then TaskPending else TaskRejected (the (errors ?s n)))"
      by (simp add: launch_order_def)
  qed
  from d show ?thesis
  proof
    assume "errors ?s k = None \<and> settled ?s = settled st \<and> promises ?s k = Some TaskPending"
    with fl pr assms(1) show ?thesis by (simp add: launch_order_def)
  next
    assume "\<exists>e. errors ?s k = Some e \<and> settled ?s = settled st @ [k] \<and>
            promises ?s k = Some (TaskRejected e)"
    then obtain e where "errors ?s k = Some e" "settled ?s = settled st @ [k]"
      "promises ?s k = Some (TaskRejected e)" by blast
    with fl pr assms(1) show ?thesis by (simp add: launch_order_def)
  qed
qed

lemma launch_order_fold:
  "launch_order ps st \<Longrightarrow> distinct (ps @ ks) \<Longrightarrow> run_inv False st \<Longrightarrow>
   \<forall>k \<in> set ks. promises st k = None \<Longrightarrow>
     launch_order (ps @ ks) (fold (task_start False tasks) ks st)"
proof (induction ks arbitrary: ps st)
  case Nil
  then show ?case by simp
next
  case (Cons k ks)
  let ?s = "task_start False tasks k st"
  from Cons.prems have pk: "promises st k = None" by simp
  from Cons.prems(3) have "unit_ok False st k" by (simp add: run_inv_def)
  from unit_ok_fresh[OF this pk] have ek: "errors st k = None" by simp
  from Cons.prems(2) have kp: "k \<notin> set ps" by auto
  have 1: "launch_order (ps @ [k]) ?s" by (rule launch_order_step[OF Cons.prems(1) kp ek])
  have 2: "distinct ((ps @ [k]) @ ks)" using Cons.prems(2) by simp
  have 3: "run_inv False ?s" by (rule run_inv_task_start[OF Cons.prems(3) pk])
  have 4: "\<forall>x \<in> set ks. promises ?s x = None"
  proof
    fix x assume x: "x \<in> set ks"
    with Cons.prems(2) have "x \<noteq> k" by auto
    from promises_task_start_other[OF this, of False tasks st] x Cons.prems(4)
    show "promises ?s x = None" by simp
  qed
  from Cons.IH[OF 1 2 3 4] show ?case by simp
qed

lemma launch_order_initial: "launch_order [] initial"
  by (simp add: launch_order_def initial_def)

lemma Promise_all_no_rejection:
  assumes "\<forall>p \<in> set ps. p = TaskPending \<or> p = TaskFulfilled"
  shows "Promise_all ps = (if \<forall>p \<in> set ps. p = TaskFulfilled then TaskFulfilled else TaskPending)"
proof -
  from assms have "filter (\<lambda>p. p \<noteq> TaskPending \<and> p \<noteq> TaskFulfilled) ps = []"
    by (auto simp: filter_empty_conv)
  then show ?thesis by (simp add: Promise_all_def list_all_iff)
qed

lemma Promise_all_one_rejection:
  assumes "TaskRejected e \<in> set ps"
    "\<forall>p \<in> set ps. p = TaskPending \<or> p = TaskFulfilled \<or> p = TaskRejected e"
  shows "Promise_all ps = TaskRejected e"
proof -
  let ?f = "filter (\<lambda>p. p \<noteq> TaskPending \<and> p \<noteq> TaskFulfilled) ps"
  from assms(1) have "TaskRejected e \<in> set ?f" by simp
  then obtain p rest where f: "?f = p # rest" by (cases ?f) auto
  then have "p \<in> set ?f" by simp
  with assms(2) have "p = TaskRejected e" by auto
  with f show ?thesis by (simp add: Promise_all_def)
qed

lemma Promise_allSettled_no_rejection:
  assumes "\<forall>p \<in> set ps. p = TaskPending \<or> p = TaskFulfilled"
  shows "Promise_allSettled ps = (if \<forall>p \<in> set ps. p = TaskFulfilled then TaskFulfilled else TaskPending)"
proof -
  from assms have "(\<forall>p \<in> set ps. p \<noteq> TaskPending) \<longleftrightarrow> (\<forall>p \<in> set ps. p = TaskFulfilled)"
    by auto
  then show ?thesis by (simp add: Promise_allSettled_def list_all_iff)
qed

lemma promise_array_ball:
  assumes "launched tasks st"
  shows "(\<forall>p \<in> set (promise_array (Object_keys tasks) st). Q p) \<longleftrightarrow>
     (\<forall>n \<in> set (Object_keys tasks). \<exists>p. promises st n = Some p \<and> Q p)"
proof -
  have "\<And>n. n \<in> set (Object_keys tasks) \<Longrightarrow> \<exists>p. promises st n = Some p"
    using assms by (auto simp: launched_def)
  then show ?thesis
    by (fastforce simp: promise_array_def)
qed

lemma promise_array_all_fulfilled:
  assumes "launched tasks st"
  shows "(\<forall>p \<in> set (promise_array (Object_keys tasks) st). p = TaskFulfilled) \<longleftrightarrow> all_fulfilled tasks st"
  by (simp add: promise_array_ball[OF assms] all_fulfilled_def)

lemma no_rejection_settle_all:
  assumes "run_inv True st"
  shows "promises st n \<noteq> Some (TaskRejected e)"
proof
  assume "promises st n = Some (TaskRejected e)"
  moreover from assms have "unit_ok True st n" by (simp add: run_inv_def)
  ultimately show False by (simp add: unit_ok_def)
qed

lemma first_failure_None_iff:
  "first_failure st = None \<longleftrightarrow> (\<forall>n \<in> set (settled st). errors st n = None)"
proof (cases "filter (\<lambda>n. errors st n \<noteq> None) (settled st)")
  case Nil
  then have "\<forall>n \<in> set (settled st). errors st n = None"
    unfolding filter_empty_conv by blast
  with Nil show ?thesis unfolding first_failure_def by simp
next
  case (Cons m rest)
  then have "m \<in> set (filter (\<lambda>n. errors st n \<noteq> None) (settled st))" by simp
  then have "m \<in> set (settled st)" "errors st m \<noteq> None" by simp_all
  with Cons show ?thesis unfolding first_failure_def by auto
qed

lemma first_failure_cong:
  assumes e: "errors st' = errors st" and s: "settled st' = settled st"
  shows "first_failure st' = first_failure st"
  unfolding first_failure_def e s by (rule refl)

lemma no_rejection_before_failure:
  assumes "run_inv False st" "first_failure st = None"
  shows "promises st n \<noteq> Some (TaskRejected e)"
proof
  assume p: "promises st n = Some (TaskRejected e)"
  from assms have "unit_ok False st n" by (simp add: run_inv_def)
  with p have "n \<in> set (settled st)" "errors st n = Some e" by (simp_all add: unit_ok_def)
  with assms(2) show False unfolding first_failure_None_iff by auto
qed

lemma array_no_rejection:
  assumes "launched tasks st" "\<And>n e. promises st n \<noteq> Some (TaskRejected e)"
  shows "\<forall>p \<in> set (promise_array (Object_keys tasks) st). p = TaskPending \<or> p = TaskFulfilled"
proof -
  have "\<forall>n \<in> set (Object_keys tasks). \<exists>p. promises st n = Some p \<and> (p = TaskPending \<or> p = TaskFulfilled)"
  proof
    fix n assume "n \<in> set (Object_keys tasks)"
    with assms(1) obtain p where p: "promises st n = Some p" by (auto simp: launched_def)
    with assms(2)[of n] show "\<exists>p. promises st n = Some p \<and> (p = TaskPending \<or> p = TaskFulfilled)"
      by (cases p) auto
  qed
  then show ?thesis by (simp add: promise_array_ball[OF assms(1)])
qed

lemma expected_cong:
  "errors st' = errors st \<Longrightarrow> settled st' = settled st \<Longrightarrow> promises st' = promises st \<Longrightarrow>
   returnValue st' = returnValue st \<Longrightarrow> expected hs tasks st' = expected hs tasks st"
  using first_failure_cong[of st' st] by (simp add: expected_def all_fulfilled_def)

lemma aggregate_settle_all:
  assumes "run_inv True st" "launched tasks st" "joined st = CallPending"
  shows "joined (aggregate True (Object_keys tasks) st) = expected True tasks st"
proof -
  have "\<forall>p \<in> set (promise_array (Object_keys tasks) st). p = TaskPending \<or> p = TaskFulfilled"
    by (rule array_no_rejection[OF assms(2)]) (rule no_rejection_settle_all[OF assms(1)])
  from Promise_allSettled_no_rejection[OF this] assms(3) show ?thesis
    by (simp add: aggregate_def expected_def promise_array_all_fulfilled[OF assms(2)])
qed

lemma aggregate_fail_fast_quiet:
  assumes "run_inv False st" "launched tasks st" "joined st = CallPending" "first_failure st = None"
  shows "joined (aggregate False (Object_keys tasks) st) = expected False tasks st"
proof -
  have "\<forall>p \<in> set (promise_array (Object_keys tasks) st). p = TaskPending \<or> p = TaskFulfilled"
    by (rule array_no_rejection[OF assms(2)]) (rule no_rejection_before_failure[OF assms(1,4)])
  from Promise_all_no_rejection[OF this] assms(3,4) show ?thesis
    by (simp add: aggregate_def expected_def promise_array_all_fulfilled[OF assms(2)])
qed

lemma aggregate_fail_fast_one:
  assumes "launched tasks st" "joined st = CallPending" "first_failure st = Some e"
    "n \<in> set (Object_keys tasks)" "promises st n = Some (TaskRejected e)"
    "\<And>m e'. m \<noteq> n \<Longrightarrow> promises st m \<noteq> Some (TaskRejected e')"
  shows "joined (aggregate False (Object_keys tasks) st) = expected False tasks st"
proof -
  let ?arr = "promise_array (Object_keys tasks) st"
  have 1: "TaskRejected e \<in> set ?arr"
    using assms(4,5) by (force simp: promise_array_def)
  have "\<forall>k \<in> set (Object_keys tasks). \<exists>p. promises st k = Some p \<and>
      (p = TaskPending \<or> p = TaskFulfilled \<or> p = TaskRejected e)"
  proof
    fix k assume "k \<in> set (Object_keys tasks)"
    with assms(1) obtain p where p: "promises st k = Some p" by (auto simp: launched_def)
    show "\<exists>p. promises st k = Some p \<and> (p = TaskPending \<or> p = TaskFulfilled \<or> p = TaskRejected e)"
    proof (cases "k = n")
      case True
      with assms(5) show ?thesis by simp
    next
      case False
      from assms(6)[OF this] p show ?thesis by (cases p) auto
    qed
  qed
  then have 2: "\<forall>p \<in> set ?arr. p = TaskPending \<or> p = TaskFulfilled \<or> p = TaskRejected e"
    by (simp add: promise_array_ball[OF assms(1)])
  from Promise_all_one_rejection[OF 1 2] assms(2,3) show ?thesis
    by (simp add: aggregate_def expected_def)
qed

lemma joined_handlers [simp]:
  "joined (try_end hs n v st) = joined st"
  "joined (catch_block hs n e st) = joined st"
  by (simp_all add: try_end_def catch_block_def Let_def)

lemma joined_task_start [simp]: "joined (task_start hs tasks n st) = joined st"
proof (cases "map_of (own tasks) n")
  case None
  then show ?thesis by (simp add: task_start_def)
next
  case (Some en)
  show ?thesis
  proof (cases en)
    case NotCallable
    with Some show ?thesis by (simp add: task_start_def)
  next
    case (Callable taskFn)
    let ?s0 = "st\<lparr>calls := calls st @ [n]\<rparr>"
    obtain b st1 where r: "run_body tasks n taskFn ?s0 = (b, st1)"
      by (cases "run_body tasks n taskFn ?s0")
    with run_body_frame(8)[of tasks n taskFn ?s0] have f: "joined st1 = joined st" by simp
    show ?thesis using Some Callable r f
      by (cases b) (simp_all add: task_start_def)
  qed
qed

lemma joined_launch [simp]: "joined (fold (task_start hs tasks) ks st) = joined st"
  by (induction ks arbitrary: st) simp_all

lemma joined_advance [simp]: "joined (advance hs tasks n st) = joined st"
  by (simp add: advance_def split: option.splits body.splits)

lemma launch_order_array:
  assumes "launch_order ks st"
  shows "filter (\<lambda>p. p \<noteq> TaskPending \<and> p \<noteq> TaskFulfilled) (promise_array ks st) =
     map (\<lambda>n. TaskRejected (the (errors st n))) (settled st)"
proof -
  let ?g = "\<lambda>n. if errors st n = None then TaskPending else TaskRejected (the (errors st n))"
  have a: "promise_array ks st = map ?g ks"
    unfolding promise_array_def using assms by (intro map_cong) (simp_all add: launch_order_def)
  have "filter (\<lambda>p. p \<noteq> TaskPending \<and> p \<noteq> TaskFulfilled) (map ?g ks) =
      map ?g (filter (\<lambda>n. errors st n \<noteq> None) ks)"
    by (induction ks) simp_all
  also have "\<dots> = map (\<lambda>n. TaskRejected (the (errors st n))) (filter (\<lambda>n. errors st n \<noteq> None) ks)"
    by (intro map_cong) simp_all
  finally show ?thesis using assms by (simp add: a launch_order_def)
qed

lemma launch_order_first_failure:
  assumes "launch_order ks st"
  shows "first_failure st = (case settled st of [] \<Rightarrow> None | n # _ \<Rightarrow> errors st n)"
proof -
  from assms have "settled st = filter (\<lambda>n. errors st n \<noteq> None) ks" by (simp add: launch_order_def)
  moreover have "filter (\<lambda>n. errors st n \<noteq> None) (filter (\<lambda>n. errors st n \<noteq> None) ks) =
      filter (\<lambda>n. errors st n \<noteq> None) ks" by simp
  ultimately have "filter (\<lambda>n. errors st n \<noteq> None) (settled st) = settled st"
    by simp
  then show ?thesis unfolding first_failure_def by simp
qed

lemma aggregate_after_launch_fail_fast:
  assumes "run_inv False st" "launched tasks st" "joined st = CallPending"
    "launch_order (Object_keys tasks) st"
  shows "joined (aggregate False (Object_keys tasks) st) = expected False tasks st"
proof (cases "settled st")
  case Nil
  with launch_order_first_failure[OF assms(4)] have "first_failure st = None" by simp
  from aggregate_fail_fast_quiet[OF assms(1,2,3) this] show ?thesis .
next
  case (Cons m rest)
  from assms(4) have "set (settled st) \<subseteq> {n. errors st n \<noteq> None}"
    by (auto simp: launch_order_def)
  with Cons obtain e where e: "errors st m = Some e" by auto
  with Cons launch_order_first_failure[OF assms(4)] have ff: "first_failure st = Some e" by simp
  from launch_order_array[OF assms(4)] Cons e
  have "Promise_all (promise_array (Object_keys tasks) st) = TaskRejected e"
    by (simp add: Promise_all_def)
  with assms(3) ff show ?thesis by (simp add: aggregate_def expected_def)
qed

lemma promises_initial: "promises initial k = None"
  by (simp add: initial_def)

lemma joined_initial: "joined initial = CallPending"
  by (simp add: initial_def)

lemma launch_facts:
  "run_inv hs (fold (task_start hs tasks) (Object_keys tasks) initial)"
  "launched tasks (fold (task_start hs tasks) (Object_keys tasks) initial)"
  "joined (fold (task_start hs tasks) (Object_keys tasks) initial) = CallPending"
proof -
  have p0: "\<forall>k \<in> set (Object_keys tasks). promises (initial :: 'a state) k = None"
    by (simp add: promises_initial)
  note l = launch_inv[OF distinct_Object_keys run_inv_initial p0, of hs tasks]
  from l show "run_inv hs (fold (task_start hs tasks) (Object_keys tasks) initial)" by blast
  from l show "launched tasks (fold (task_start hs tasks) (Object_keys tasks) initial)"
    unfolding launched_def by (simp add: promises_initial)
  show "joined (fold (task_start hs tasks) (Object_keys tasks) initial) = CallPending"
    by (simp add: joined_initial)
qed

lemma joined_executeTasksInternal:
  "joined (executeTasksInternal tasks hs) = expected hs tasks (executeTasksInternal tasks hs)"
proof -
  let ?st = "fold (task_start hs tasks) (Object_keys tasks) initial"
  have x: "expected hs tasks (executeTasksInternal tasks hs) = expected hs tasks ?st"
    by (rule expected_cong) (simp_all add: executeTasksInternal_def)
  note f = launch_facts[where hs=hs and tasks=tasks]
  show ?thesis
  proof (cases hs)
    case True
    from aggregate_settle_all[of ?st tasks] f x True
    show ?thesis by (simp add: executeTasksInternal_def)
  next
    case False
    have "launch_order ([] @ Object_keys tasks) (fold (task_start False tasks) (Object_keys tasks) initial)"
      by (rule launch_order_fold[OF launch_order_initial _ run_inv_initial])
        (simp_all add: promises_initial)
    then have lo: "launch_order (Object_keys tasks) ?st"
      using False by simp
    from aggregate_after_launch_fail_fast[of ?st tasks] lo f x False
    show ?thesis by (simp add: executeTasksInternal_def)
  qed
qed

lemma advance_cases:
  obtains (quiet) "errors (advance hs tasks n st) = errors st"
      "settled (advance hs tasks n st) = settled st"
      "promises (advance hs tasks n st) = promises st"
      "returnValue (advance hs tasks n st) = returnValue st"
      "results (advance hs tasks n st) = results st"
  | (fulfilled) v where "units st n = Some (Return v)" "advance hs tasks n st = try_end hs n v st"
  | (failed) e where "units st n = Some (Throw e)" "advance hs tasks n st = catch_block hs n e st"
proof (cases "units st n")
  case None
  then show ?thesis by (intro quiet) (simp_all add: advance_def)
next
  case (Some b)
  show ?thesis
  proof (cases b)
    case (Return v)
    with Some show ?thesis by (intro fulfilled[of v]) (simp_all add: advance_def)
  next
    case (Throw e)
    with Some show ?thesis by (intro failed[of e]) (simp_all add: advance_def)
  next
    case (Get d k)
    with Some show ?thesis by (intro quiet) (simp_all add: advance_def)
  next
    case (Await h k)
    with Some show ?thesis by (intro quiet) (simp_all add: advance_def split: option.splits)
  next
    case (Pause b')
    with Some show ?thesis by (intro quiet) (simp_all add: advance_def)
  qed
qed

lemma first_failure_extend:
  assumes "\<forall>x \<in> set (settled st). errors st' x = errors st x"
    "settled st' = settled st @ extra" "first_failure st = Some e"
  shows "first_failure st' = Some e"
proof -
  let ?P = "\<lambda>n. errors st n \<noteq> None" and ?P' = "\<lambda>n. errors st' n \<noteq> None"
  have a: "filter ?P' (settled st) = filter ?P (settled st)"
    using assms(1) by (intro filter_cong) simp_all
  from assms(3) obtain m rest where f: "filter ?P (settled st) = m # rest" and m: "errors st m = Some e"
    unfolding first_failure_def by (cases "filter ?P (settled st)") simp_all
  from f have "m \<in> set (filter ?P (settled st))" by simp
  then have "m \<in> set (settled st)" by simp
  with assms(1) m have "errors st' m = Some e" by simp
  with f a assms(2) show ?thesis unfolding first_failure_def by simp
qed

lemma first_failure_advance:
  assumes "run_inv hs st" "first_failure st = Some e"
  shows "first_failure (advance hs tasks n st) = Some e"
proof (cases rule: advance_cases[of hs tasks n st])
  case quiet
  with first_failure_cong[of "advance hs tasks n st" st] assms(2) show ?thesis by simp
next
  case (fulfilled v)
  show ?thesis unfolding fulfilled(2)
    by (rule first_failure_extend[where extra="[n]", OF _ _ assms(2)]) (simp_all add: try_end_summary)
next
  case (failed e')
  from assms(1) have "unit_ok hs st n" by (simp add: run_inv_def)
  from unit_ok_running[OF this] failed(1) have "n \<notin> set (settled st)" by simp
  then have "\<forall>x \<in> set (settled st). errors (catch_block hs n e' st) x = errors st x"
    by (auto simp: catch_block_summary)
  then show ?thesis unfolding failed(2)
    by (rule first_failure_extend[where extra="[n]", OF _ _ assms(2)]) (simp add: catch_block_summary)
qed

lemma failure_appears:
  assumes "run_inv False st" "first_failure st = None"
    "first_failure (advance False tasks n st) = Some e"
  shows "promises (advance False tasks n st) n = Some (TaskRejected e) \<and>
     (\<forall>m. m \<noteq> n \<longrightarrow> promises (advance False tasks n st) m = promises st m) \<and>
     units st n \<noteq> None"
proof (cases rule: advance_cases[of False tasks n st])
  case quiet
  with first_failure_cong[of "advance False tasks n st" st] assms(2,3) show ?thesis by simp
next
  case (fulfilled v)
  from assms(1) have "unit_ok False st n" by (simp add: run_inv_def)
  from unit_ok_running[OF this] fulfilled(1) have "errors st n = None" by simp
  with assms(2) have "first_failure (try_end False n v st) = None"
    unfolding first_failure_None_iff by (simp add: try_end_summary)
  with assms(3) fulfilled(2) show ?thesis by simp
next
  case (failed e')
  from assms(1) have "unit_ok False st n" by (simp add: run_inv_def)
  from unit_ok_running[OF this] failed(1) have ns: "n \<notin> set (settled st)" by simp
  from assms(2) have "\<forall>x \<in> set (settled st). errors st x = None"
    unfolding first_failure_None_iff .
  with ns have "filter (\<lambda>x. errors (catch_block False n e' st) x \<noteq> None) (settled st) = []"
    unfolding filter_empty_conv by (auto simp: catch_block_summary)
  then have "first_failure (catch_block False n e' st) = Some e'"
    unfolding first_failure_def by (simp add: catch_block_summary)
  with assms(3) failed(2) have "e' = e" by simp
  with failed show ?thesis by (simp add: promises_catch_block)
qed

lemma idle_when_all_fulfilled:
  assumes "run_inv hs st" "launched tasks st" "all_fulfilled tasks st"
  shows "advance hs tasks' n st = st"
proof -
  from assms(1) have u: "unit_ok hs st n" by (simp add: run_inv_def)
  have "units st n = None"
  proof (cases "n \<in> set (Object_keys tasks)")
    case True
    with assms(3) have "promises st n = Some TaskFulfilled" by (simp add: all_fulfilled_def)
    with u show ?thesis by (simp add: unit_ok_def)
  next
    case False
    with assms(2) have "promises st n = None" by (simp add: launched_def)
    from unit_ok_fresh[OF u this] show ?thesis by simp
  qed
  then show ?thesis by (simp add: advance_def)
qed

lemma joined_step:
  assumes "run_inv hs st" "launched tasks st" "joined st = expected hs tasks st"
  shows "joined (step hs tasks n st) = expected hs tasks (step hs tasks n st)"
proof -
  let ?s = "advance hs tasks n st"
  have i: "run_inv hs ?s" by (rule run_inv_advance[OF assms(1)])
  have l: "launched tasks ?s" using assms(2) by (simp add: launched_def promises_advance_dom[OF assms(1)])
  have x: "expected hs tasks (step hs tasks n st) = expected hs tasks ?s"
    by (rule expected_cong) (simp_all add: step_def)
  show ?thesis
  proof (cases "joined st = CallPending")
    case pending: True
    then have j: "joined ?s = CallPending" by simp
    show ?thesis
    proof (cases hs)
      case True
      from aggregate_settle_all[of ?s tasks] i l j True x show ?thesis by (simp add: step_def)
    next
      case False
      from pending assms(3) False have ff: "first_failure st = None"
        by (simp add: expected_def split: if_splits)
      show ?thesis
      proof (cases "first_failure ?s")
        case None
        from aggregate_fail_fast_quiet[of ?s tasks] i l j None False x show ?thesis
          by (simp add: step_def)
      next
        case (Some e)
        from failure_appears[of st tasks n e] assms(1) ff Some False
        have p: "promises ?s n = Some (TaskRejected e)"
          and o: "\<And>m. m \<noteq> n \<Longrightarrow> promises ?s m = promises st m"
          and un: "units st n \<noteq> None" by simp_all
        from assms(1) have "unit_ok hs st n" by (simp add: run_inv_def)
        from unit_ok_running[OF this un] have "promises st n \<noteq> None" by simp
        with assms(2)[unfolded launched_def, rule_format, of n]
        have nk: "n \<in> set (Object_keys tasks)" by simp
        have nr: "\<And>m e'. m \<noteq> n \<Longrightarrow> promises ?s m \<noteq> Some (TaskRejected e')"
          using o no_rejection_before_failure[of st] assms(1) ff False by simp
        from aggregate_fail_fast_one[of tasks ?s e n] l j Some nk p nr False x
        show ?thesis by (simp add: step_def)
      qed
    qed
  next
    case settled: False
    then have a: "joined (step hs tasks n st) = joined st"
      by (cases "joined st") (simp_all add: step_def aggregate_def)
    show ?thesis
    proof (cases "\<not> hs \<and> first_failure st \<noteq> None")
      case True
      then obtain e where ff: "first_failure st = Some e" by auto
      from first_failure_advance[OF assms(1) ff] True have "expected hs tasks ?s = CallRejected e"
        by (simp add: expected_def)
      moreover from True ff assms(3) have "joined st = CallRejected e" by (simp add: expected_def)
      ultimately show ?thesis using a x by simp
    next
      case False
      with settled assms(3) have "all_fulfilled tasks st"
        by (auto simp: expected_def split: if_splits)
      from idle_when_all_fulfilled[OF assms(1,2) this] have "?s = st" .
      with a x assms(3) show ?thesis by simp
    qed
  qed
qed

lemma joined_fold_step:
  "run_inv hs st \<Longrightarrow> launched tasks st \<Longrightarrow> joined st = expected hs tasks st \<Longrightarrow>
     joined (fold (step hs tasks) schedule st) = expected hs tasks (fold (step hs tasks) schedule st)"
proof (induction schedule arbitrary: st)
  case Nil
  then show ?case by simp
next
  case (Cons n schedule)
  from Cons.prems show ?case
    by (simp add: Cons.IH run_inv_step launched_step joined_step)
qed

lemma joined_run: "joined (run hs tasks schedule) = expected hs tasks (run hs tasks schedule)"
  unfolding run_def
  using executeTasksInternal_inv[of hs tasks] joined_executeTasksInternal[of tasks hs]
  by (intro joined_fold_step) simp_all

section \<open>What is stored stays, and the graph only grows\<close>

lemma results_advance_stable:
  assumes "run_inv hs st" "results st d = Some v"
  shows "results (advance hs tasks n st) d = Some v"
proof (cases rule: advance_cases[of hs tasks n st])
  case quiet
  with assms(2) show ?thesis by simp
next
  case (fulfilled v')
  from assms(1) have "unit_ok hs st n" by (simp add: run_inv_def)
  from unit_ok_running[OF this] fulfilled(1) have "results st n = None" by simp
  with assms(2) have "d \<noteq> n" by auto
  with assms(2) fulfilled(2) show ?thesis by (simp add: try_end_summary)
next
  case (failed e)
  with assms(2) show ?thesis by (simp add: catch_block_def Let_def)
qed

lemma errors_advance_stable:
  assumes "run_inv hs st" "errors st d = Some e"
  shows "errors (advance hs tasks n st) d = Some e"
proof (cases rule: advance_cases[of hs tasks n st])
  case quiet
  with assms(2) show ?thesis by simp
next
  case (fulfilled v')
  with assms(2) show ?thesis by (simp add: try_end_summary)
next
  case (failed e')
  from assms(1) have "unit_ok hs st n" by (simp add: run_inv_def)
  from unit_ok_running[OF this] failed(1) have "errors st n = None" by simp
  with assms(2) have "d \<noteq> n" by auto
  with assms(2) failed(2) show ?thesis by (simp add: catch_block_summary)
qed

lemma wait_edges_run_body_mono:
  "wait_edges (waitingFor st) \<subseteq> wait_edges (waitingFor (snd (run_body tasks n b st)))"
  by (rule run_body_preserves[where P="\<lambda>s. wait_edges (waitingFor st) \<subseteq> wait_edges (waitingFor s)"])
    (auto simp: wait_edges_waitForDep)

lemma wait_edges_resume_mono:
  "wait_edges (waitingFor st) \<subseteq> wait_edges (waitingFor (resume tasks n b st))"
proof -
  obtain b' st1 where r: "run_body tasks n b st = (b', st1)" by (cases "run_body tasks n b st")
  with wait_edges_run_body_mono[of st tasks n b] show ?thesis by (simp add: resume_def)
qed

lemma wait_edges_advance_mono:
  "wait_edges (waitingFor st) \<subseteq> wait_edges (waitingFor (advance hs tasks n st))"
proof (cases "units st n")
  case None
  then show ?thesis by (simp add: advance_def)
next
  case (Some b)
  then show ?thesis
    using wait_edges_resume_mono[of st tasks n]
    by (cases b) (simp_all add: advance_def split: option.splits)
qed

lemma step_stable:
  assumes "run_inv hs st"
  shows "results st d = Some v \<Longrightarrow> results (step hs tasks n st) d = Some v"
    "errors st d = Some e \<Longrightarrow> errors (step hs tasks n st) d = Some e"
    "wait_edges (waitingFor st) \<subseteq> wait_edges (waitingFor (step hs tasks n st))"
  using assms
  by (simp_all add: step_def results_advance_stable errors_advance_stable wait_edges_advance_mono)

lemma fold_step_stable:
  "run_inv hs st \<Longrightarrow>
     (results st d = Some v \<longrightarrow> results (fold (step hs tasks) later st) d = Some v) \<and>
     (errors st d = Some e \<longrightarrow> errors (fold (step hs tasks) later st) d = Some e) \<and>
     wait_edges (waitingFor st) \<subseteq> wait_edges (waitingFor (fold (step hs tasks) later st))"
proof (induction later arbitrary: st)
  case Nil
  then show ?case by simp
next
  case (Cons n later)
  note i = Cons.IH[OF run_inv_step[OF Cons.prems, of tasks n]]
  note s = step_stable[OF Cons.prems, where tasks=tasks and n=n]
  show ?case
  proof (intro conjI impI)
    assume "results st d = Some v"
    from s(1)[OF this] i show "results (fold (step hs tasks) (n # later) st) d = Some v" by simp
  next
    assume "errors st d = Some e"
    from s(2)[OF this] i show "errors (fold (step hs tasks) (n # later) st) d = Some e" by simp
  next
    from s(3) i show "wait_edges (waitingFor st) \<subseteq> wait_edges (waitingFor (fold (step hs tasks) (n # later) st))"
      by (simp; blast)
  qed
qed

lemma run_append: "run hs tasks (schedule @ later) = fold (step hs tasks) later (run hs tasks schedule)"
  by (simp add: run_def)



section \<open>Exactly-once execution\<close>



section \<open>Accesses that would close a cycle\<close>

text \<open>
  Claim C2, as the code has it.  An access \<^verbatim>\<open>get(t)\<close> by caller \<^verbatim>\<open>c\<close> returns a promise
  that is already rejected and leaves \<^verbatim>\<open>waitingFor\<close> as it is when \<^verbatim>\<open>t\<close> is \<^verbatim>\<open>c\<close>
  itself or when \<^verbatim>\<open>t\<close> reaches \<^verbatim>\<open>c\<close> through recorded wait edges.  In the second case,
  for a target that \<^verbatim>\<open>in\<close> finds, the message starts with
  \<^verbatim>\<open>Circular dependency detected: \<close>, the caller, and then the names of a chain of
  recorded wait edges that begins at the target and ends at the caller, joined by arrows:
  caller, target, ..., caller.
\<close>

theorem cycle_closing_access_rejected:
  "((callerTask = depName \<or> (depName, callerTask) \<in> (wait_edges (waitingFor st))\<^sup>*) \<longrightarrow>
      (\<exists>err. returned (waitForDep tasks callerTask depName st) = Some (Rejected err)) \<and>
      waitingFor (snd (waitForDep tasks callerTask depName st)) = waitingFor st)
   \<and> (in_op depName tasks \<and> callerTask \<noteq> depName \<and>
        (depName, callerTask) \<in> (wait_edges (waitingFor st))\<^sup>* \<longrightarrow>
      (\<exists>p rest. chain (waitingFor st) (depName # p) \<and> last (depName # p) = callerTask \<and>
         returned (waitForDep tasks callerTask depName st) =
           Some (Rejected (NewError (''Circular dependency detected: '' @ callerTask @ arrow @
              join arrow (depName # p) @ rest)))))"
proof (intro conjI impI)
  assume "callerTask = depName \<or> (depName, callerTask) \<in> (wait_edges (waitingFor st))\<^sup>*"
  then have h: "hasCyclePath (waitingFor st) depName callerTask"
    by (auto simp: hasCyclePath_iff)
  then show "\<exists>err. returned (waitForDep tasks callerTask depName st) = Some (Rejected err)"
    by (simp add: waitForDep_def)
  from h show "waitingFor (snd (waitForDep tasks callerTask depName st)) = waitingFor st"
    by (simp add: waitingFor_waitForDep)
next
  assume a: "in_op depName tasks \<and> callerTask \<noteq> depName \<and>
        (depName, callerTask) \<in> (wait_edges (waitingFor st))\<^sup>*"
  then have h: "hasCyclePath (waitingFor st) depName callerTask" by (simp add: hasCyclePath_iff)
  from a cyclePath_list_correct[of depName callerTask "waitingFor st"] obtain p where
    p: "cyclePath_list (waitingFor st) depName callerTask = depName # p"
      "chain (waitingFor st) (depName # p)" "last (depName # p) = callerTask" by blast
  from a h p(1) have "returned (waitForDep tasks callerTask depName st) =
      Some (Rejected (NewError (''Circular dependency detected: '' @ callerTask @ arrow @
              join arrow (depName # p) @ (arrow @ callerTask))))"
    by (simp add: waitForDep_cycle cycle_message_def buildCyclePath_def)
  with p(2,3) show "\<exists>p rest. chain (waitingFor st) (depName # p) \<and> last (depName # p) = callerTask \<and>
         returned (waitForDep tasks callerTask depName st) =
           Some (Rejected (NewError (''Circular dependency detected: '' @ callerTask @ arrow @
              join arrow (depName # p) @ rest)))"
    by blast
qed

theorem cycle_closing_access_rejected_witness:
  "in_op ''b'' cycle_tasks \<and> ''a'' \<noteq> ''b''
   \<and> (''b'', ''a'') \<in> (wait_edges (waitingFor (executeTasksInternal cycle_tasks False)))\<^sup>*
   \<and> (\<exists>err. returned (waitForDep cycle_tasks ''a'' ''b'' (executeTasksInternal cycle_tasks False)) =
          Some (Rejected err))
   \<and> waitingFor (snd (waitForDep cycle_tasks ''a'' ''b'' (executeTasksInternal cycle_tasks False))) =
        waitingFor (executeTasksInternal cycle_tasks False)
   \<and> (\<exists>p rest. chain (waitingFor (executeTasksInternal cycle_tasks False)) (''b'' # p) \<and>
        last (''b'' # p) = ''a'' \<and>
        returned (waitForDep cycle_tasks ''a'' ''b'' (executeTasksInternal cycle_tasks False)) =
           Some (Rejected (NewError (''Circular dependency detected: '' @ ''a'' @ arrow @
              join arrow (''b'' # p) @ rest))))"
proof -
  let ?st = "executeTasksInternal cycle_tasks False"
  have h1: "in_op ''b'' cycle_tasks" by (simp add: in_op_def cycle_tasks_def ordinary_object_plain array_index_letter)
  have h2: "''a'' \<noteq> ''b''" by simp
  have "hasCyclePath (waitingFor ?st) ''b'' ''a''" by code_simp
  then have h3: "(''b'', ''a'') \<in> (wait_edges (waitingFor ?st))\<^sup>*" by (simp add: hasCyclePath_iff)
  from cycle_closing_access_rejected[of "''a''" "''b''" ?st cycle_tasks] h1 h2 h3
  show ?thesis by simp
qed

text \<open>
  Claim C2 as stated puts the target next to the closing caller.  In the ring where
  \<^verbatim>\<open>b\<close> waits on \<^verbatim>\<open>c\<close> and \<^verbatim>\<open>c\<close> on \<^verbatim>\<open>a\<close>, the access of \<^verbatim>\<open>a\<close> to \<^verbatim>\<open>b\<close> is
  rejected with a message in which the target follows the caller and \<^verbatim>\<open>b\<close>, arrow,
  \<^verbatim>\<open>a\<close> does not occur.
\<close>

theorem cycle_message_form_counterexample:
  "heap (run False cycle_tasks [''a'']) ! 2 =
     Some (Rejected (NewError (''Circular dependency detected: a'' @ arrow @ ''b'' @ arrow @ ''c''
        @ arrow @ ''a'' @ arrow @ ''a'')))
   \<and> \<not> occurs_in (''b'' @ arrow @ ''a'')
        (''Circular dependency detected: a'' @ arrow @ ''b'' @ arrow @ ''c''
           @ arrow @ ''a'' @ arrow @ ''a'')"
  by code_simp

section \<open>Names that are not tasks\<close>

lemma inherited_name_launch:
  "executeTasksInternal inherited_name_tasks False =
     initial\<lparr>waitingFor := [(''a'', [''toString''])], heap := [None],
       resolvers := [''toString'' \<mapsto> [0]], units := [''a'' \<mapsto> await_value 0],
       promises := [''a'' \<mapsto> TaskPending], calls := [''a'']\<rparr>"
  by (simp add: executeTasksInternal_def inherited_name_tasks_def ordinary_object_plain array_index_letter
      Object_keys_def task_start_def waitForDep_def in_op_def Object_prototype_def
      hasCyclePath_def record_wait_def new_Promise_def initial_def await_value_def
      aggregate_def promise_array_def Promise_all_def)

lemma inherited_name_keys: "Object_keys inherited_name_tasks = [''a'']"
  by (simp add: inherited_name_tasks_def ordinary_object_plain array_index_letter Object_keys_def)

lemma inherited_name_stuck:
  "step False inherited_name_tasks n (executeTasksInternal inherited_name_tasks False) =
     executeTasksInternal inherited_name_tasks False"
  by (cases "n = ''a''")
    (simp_all add: inherited_name_launch inherited_name_keys step_def advance_def await_value_def
      initial_def aggregate_def promise_array_def Promise_all_def)

lemma inherited_name_run:
  "run False inherited_name_tasks schedule = executeTasksInternal inherited_name_tasks False"
  unfolding run_def by (induction schedule) (simp_all add: inherited_name_stuck)

text \<open>
  Claim C7 at a name that the task set inherits.  The task set \<^verbatim>\<open>{ a() { return
  this.$.toString } }\<close> has the single key \<^verbatim>\<open>a\<close>, yet \<^verbatim>\<open>'toString' in tasks\<close> holds:
  the access is not rejected, the edge from \<^verbatim>\<open>a\<close> to \<^verbatim>\<open>toString\<close> is recorded, the
  promise returned stays pending, and the call never settles, whatever the schedule.
\<close>

theorem inherited_name_is_not_rejected:
  "\<not> (''toString'' \<in> set (Object_keys inherited_name_tasks))
   \<and> heap (executeTasksInternal inherited_name_tasks False) = [None]
   \<and> waitingFor (executeTasksInternal inherited_name_tasks False) = [(''a'', [''toString''])]
   \<and> all_call inherited_name_tasks schedule = CallPending"
  by (simp add: all_call_def inherited_name_run inherited_name_launch inherited_name_keys
      initial_def)

section \<open>Delivering the stored outcome\<close>





section \<open>The wait graph\<close>

text \<open>
  Claim C5, as the code has it.  The wait graph is acyclic in every state of every run; an
  edge, once recorded, is there in every later state; every access leaves the edges it
  found; and an access stopped by a guard of the handle (unknown name, own name, or a
  target that already reaches the caller) is rejected and leaves the graph unchanged.
\<close>

theorem wait_graph_grows_acyclic:
  "acyclic (wait_edges (waitingFor (run hs tasks schedule)))
   \<and> wait_edges (waitingFor (run hs tasks schedule)) \<subseteq>
       wait_edges (waitingFor (run hs tasks (schedule @ later)))
   \<and> wait_edges (waitingFor st) \<subseteq> wait_edges (waitingFor (snd (waitForDep tasks' c d st)))
   \<and> (\<not> in_op d' tasks' \<or> c' = d' \<or> (d', c') \<in> (wait_edges (waitingFor st'))\<^sup>* \<longrightarrow>
        (\<exists>err. returned (waitForDep tasks' c' d' st') = Some (Rejected err)) \<and>
        waitingFor (snd (waitForDep tasks' c' d' st')) = waitingFor st')"
proof (intro conjI impI)
  note i = run_inv_run(1)[of hs tasks schedule]
  from i show "acyclic (wait_edges (waitingFor (run hs tasks schedule)))" by (simp add: run_inv_def)
  show "wait_edges (waitingFor (run hs tasks schedule)) \<subseteq>
       wait_edges (waitingFor (run hs tasks (schedule @ later)))"
    using fold_step_stable[OF i, where tasks=tasks and later=later] by (simp add: run_append)
  show "wait_edges (waitingFor st) \<subseteq> wait_edges (waitingFor (snd (waitForDep tasks' c d st)))"
    by (auto simp: wait_edges_waitForDep)
next
  assume "\<not> in_op d' tasks' \<or> c' = d' \<or> (d', c') \<in> (wait_edges (waitingFor st'))\<^sup>*"
  then have g: "\<not> in_op d' tasks' \<or> c' = d' \<or> hasCyclePath (waitingFor st') d' c'"
    by (simp add: hasCyclePath_iff)
  then show "\<exists>err. returned (waitForDep tasks' c' d' st') = Some (Rejected err)"
    by (auto simp: waitForDep_def)
  from g show "waitingFor (snd (waitForDep tasks' c' d' st')) = waitingFor st'"
    by (auto simp: waitingFor_waitForDep)
qed

theorem wait_graph_grows_acyclic_witness:
  "(''b'', ''a'') \<in> (wait_edges (waitingFor (executeTasksInternal cycle_tasks False)))\<^sup>*
   \<and> acyclic (wait_edges (waitingFor (run False cycle_tasks [''a''])))
   \<and> wait_edges (waitingFor (run False cycle_tasks [''a''])) \<subseteq>
       wait_edges (waitingFor (run False cycle_tasks ([''a''] @ [''b''])))
   \<and> (\<exists>err. returned (waitForDep cycle_tasks ''a'' ''b'' (executeTasksInternal cycle_tasks False)) =
         Some (Rejected err))
   \<and> waitingFor (snd (waitForDep cycle_tasks ''a'' ''b'' (executeTasksInternal cycle_tasks False))) =
       waitingFor (executeTasksInternal cycle_tasks False)"
proof -
  let ?st = "executeTasksInternal cycle_tasks False"
  have "hasCyclePath (waitingFor ?st) ''b'' ''a''" by code_simp
  then have h: "(''b'', ''a'') \<in> (wait_edges (waitingFor ?st))\<^sup>*" by (simp add: hasCyclePath_iff)
  from wait_graph_grows_acyclic[where hs=False and tasks=cycle_tasks and schedule="[''a'']"
      and later="[''b'']" and st="?st" and tasks'=cycle_tasks and c="''a''" and d="''b''"
      and c'="''a''" and d'="''b''" and st'="?st"] h
  show ?thesis by simp
qed

text \<open>
  Claim C5 as stated says that every rejected access leaves the graph unchanged.  An access
  to a task that has already failed is rejected with the stored error after its edge was
  recorded: here \<^verbatim>\<open>a\<close> throws at once and \<^verbatim>\<open>b\<close> asks for \<^verbatim>\<open>a\<close>.
\<close>

theorem rejected_access_records_edge_counterexample:
  "returned (waitForDep failing_dep_tasks ''b'' ''a'' (task_start False failing_dep_tasks ''a'' initial)) =
     Some (Rejected (Plain 7))
   \<and> waitingFor (task_start False failing_dep_tasks ''a'' initial) = []
   \<and> waitingFor (snd (waitForDep failing_dep_tasks ''b'' ''a''
        (task_start False failing_dep_tasks ''a'' initial))) = [(''b'', [''a''])]
   \<and> heap (executeTasksInternal failing_dep_tasks False) = [Some (Rejected (Plain 7))]
   \<and> waitingFor (executeTasksInternal failing_dep_tasks False) = [(''b'', [''a''])]"
  by code_simp

section \<open>The two entry points share the core\<close>

lemma same_core_waitForDep:
  assumes "same_core s t"
  shows "fst (waitForDep tasks c d s) = fst (waitForDep tasks c d t) \<and>
     same_core (snd (waitForDep tasks c d s)) (snd (waitForDep tasks c d t))"
  using assms
  by (simp add: same_core_def waitForDep_def Let_def Promise_reject_def Promise_resolve_def
      new_Promise_def split: option.splits)

lemma same_core_run_body:
  "same_core s t \<Longrightarrow>
     fst (run_body tasks n b s) = fst (run_body tasks n b t) \<and>
     same_core (snd (run_body tasks n b s)) (snd (run_body tasks n b t))"
proof (induction b arbitrary: s t)
  case (Get d k)
  obtain h s1 where ws: "waitForDep tasks n d s = (h, s1)" by (cases "waitForDep tasks n d s")
  obtain h' t1 where wt: "waitForDep tasks n d t = (h', t1)" by (cases "waitForDep tasks n d t")
  from same_core_waitForDep[OF Get.prems, of tasks n d] ws wt have e: "h' = h" "same_core s1 t1"
    by simp_all
  from Get.IH[OF _ e(2), of "k h"] ws wt e(1) show ?case by simp
qed simp_all

lemma same_core_drain:
  "same_core s t \<Longrightarrow> same_core (drain n out s) (drain n out t)"
  by (simp add: same_core_def drain_def split: option.splits)

lemma same_core_try_end:
  assumes "same_core s t"
  shows "same_core (try_end hs n v s) (try_end hs' n v t)"
proof -
  have "same_core (handleResult hs n v s) (handleResult hs' n v t)"
    unfolding handleResult_def using assms by (intro same_core_drain) (simp add: same_core_def)
  then show ?thesis by (simp add: try_end_def Let_def same_core_def)
qed

lemma same_core_catch_block:
  assumes "same_core s t"
  shows "same_core (catch_block hs n e s) (catch_block hs' n e t)"
proof -
  have "same_core (handleError hs n e s) (handleError hs' n e t)"
    unfolding handleError_def using assms by (intro same_core_drain) (simp add: same_core_def)
  then show ?thesis by (simp add: catch_block_def Let_def same_core_def)
qed

lemma same_core_resume:
  assumes "same_core s t"
  shows "same_core (resume tasks n b s) (resume tasks n b t)"
proof -
  obtain b1 s1 where rs: "run_body tasks n b s = (b1, s1)" by (cases "run_body tasks n b s")
  obtain b2 t1 where rt: "run_body tasks n b t = (b2, t1)" by (cases "run_body tasks n b t")
  from same_core_run_body[OF assms, of tasks n b] rs rt have "b2 = b1" "same_core s1 t1" by simp_all
  with rs rt show ?thesis by (simp add: resume_def same_core_def)
qed

lemma same_core_advance:
  assumes "same_core s t"
  shows "same_core (advance hs tasks n s) (advance hs' tasks n t)"
proof -
  from assms have u: "units t = units s" and h: "heap t = heap s" by (simp_all add: same_core_def)
  show ?thesis
  proof (cases "units s n")
    case None
    with u assms show ?thesis by (simp add: advance_def)
  next
    case (Some b)
    show ?thesis
      using Some u h assms same_core_try_end[OF assms] same_core_catch_block[OF assms]
        same_core_resume[OF assms]
      by (cases b) (simp_all add: advance_def split: option.splits)
  qed
qed

lemma same_core_aggregate:
  "same_core (aggregate hs ks s) (aggregate hs' ks' t) = same_core s t"
  by (simp add: same_core_def)

lemma same_core_step:
  "same_core s t \<Longrightarrow> same_core (step hs tasks n s) (step hs' tasks n t)"
  by (simp add: step_def same_core_aggregate same_core_advance)

lemma same_core_task_start:
  assumes "same_core s t"
  shows "same_core (task_start hs tasks n s) (task_start hs' tasks n t)"
proof (cases "map_of (own tasks) n")
  case None
  with same_core_catch_block[OF assms] show ?thesis by (simp add: task_start_def)
next
  case (Some en)
  show ?thesis
  proof (cases en)
    case NotCallable
    with Some same_core_catch_block[OF assms] show ?thesis by (simp add: task_start_def)
  next
    case (Callable taskFn)
    let ?s0 = "s\<lparr>calls := calls s @ [n]\<rparr>" and ?t0 = "t\<lparr>calls := calls t @ [n]\<rparr>"
    from assms have c0: "same_core ?s0 ?t0" by (simp add: same_core_def)
    obtain b1 s1 where rs: "run_body tasks n taskFn ?s0 = (b1, s1)"
      by (cases "run_body tasks n taskFn ?s0")
    obtain b2 t1 where rt: "run_body tasks n taskFn ?t0 = (b2, t1)"
      by (cases "run_body tasks n taskFn ?t0")
    from same_core_run_body[OF c0, of tasks n taskFn] rs rt have e: "b2 = b1" "same_core s1 t1"
      by simp_all
    have p: "same_core (s1\<lparr>units := (units s1)(n \<mapsto> b1), promises := (promises s1)(n \<mapsto> TaskPending)\<rparr>)
        (t1\<lparr>units := (units t1)(n \<mapsto> b1), promises := (promises t1)(n \<mapsto> TaskPending)\<rparr>)"
      using e(2) by (simp add: same_core_def)
    show ?thesis
      using Some Callable rs rt e(1) p same_core_catch_block[OF e(2)]
      by (cases b1) (simp_all add: task_start_def)
  qed
qed

lemma same_core_launch:
  "same_core s t \<Longrightarrow>
     same_core (fold (task_start hs tasks) ks s) (fold (task_start hs' tasks) ks t)"
  by (induction ks arbitrary: s t) (simp_all add: same_core_task_start)

lemma same_core_fold_step:
  "same_core s t \<Longrightarrow>
     same_core (fold (step hs tasks) schedule s) (fold (step hs' tasks) schedule t)"
  by (induction schedule arbitrary: s t) (simp_all add: same_core_step)

lemma same_core_run: "same_core (run hs tasks schedule) (run hs' tasks schedule)"
proof -
  have "same_core (initial :: 'a state) initial" by (simp add: same_core_def)
  then have "same_core (fold (task_start hs tasks) (Object_keys tasks) initial)
      (fold (task_start hs' tasks) (Object_keys tasks) initial)"
    by (rule same_core_launch)
  then have "same_core (executeTasksInternal tasks hs) (executeTasksInternal tasks hs')"
    by (simp add: executeTasksInternal_def same_core_aggregate)
  then show ?thesis unfolding run_def by (rule same_core_fold_step)
qed

section \<open>The object that is returned\<close>

lemma slot_of_cong:
  "results st' = results st \<Longrightarrow> errors st' = errors st \<Longrightarrow> slot_of hs st' = slot_of hs st"
  by (simp add: slot_of_def fun_eq_iff split: option.splits)

lemma rv_inv_cong:
  assumes "returnValue st' = returnValue st" "results st' = results st" "errors st' = errors st"
  shows "rv_inv hs st' = rv_inv hs st"
  using slot_of_cong[OF assms(2,3), of hs] assms(1) by (simp add: rv_inv_def return_of_def)

lemma slot_of_handleResult:
  "slot_of hs (handleResult hs' n v st) =
     (slot_of hs st)(n \<mapsto> (if hs then StatusFulfilled v else Raw v))"
  by (auto simp: slot_of_def fun_eq_iff split: option.splits)

lemma slot_of_handleError:
  "results st n = None \<Longrightarrow>
     slot_of hs (handleError hs' n e st) =
       (slot_of hs st)(n := if hs then Some (StatusRejected e) else None)"
  by (auto simp: slot_of_def fun_eq_iff split: option.splits)

lemma returnValue_handleResult:
  "returnValue (handleResult hs n v st) =
     assign n (if hs then StatusFulfilled v else Raw v) (returnValue st)"
  by (simp add: handleResult_def)

lemma returnValue_handleError:
  "returnValue (handleError hs n e st) =
     (if hs then assign n (StatusRejected e) (returnValue st) else returnValue st)"
  by (simp add: handleError_def)

lemma assign_return_of:
  assumes "slot_of hs st n = None" "slot_of hs st' = (slot_of hs st)(n \<mapsto> s)"
  shows "assign n s (return_of hs st) = return_of hs st'"
proof (cases "n = ''__proto__''")
  case True
  with assms show ?thesis by (simp add: assign_def return_of_def)
next
  case False
  with assms show ?thesis by (simp add: assign_def return_of_def fun_upd_twist)
qed

lemma rv_inv_handleResult:
  assumes "rv_inv hs st" "results st n = None" "errors st n = None"
  shows "rv_inv hs (handleResult hs n v st)"
proof -
  from assms(2,3) have s: "slot_of hs st n = None" by (simp add: slot_of_def)
  from assms(1) have r: "returnValue st = return_of hs st" by (simp add: rv_inv_def)
  show ?thesis
    unfolding rv_inv_def returnValue_handleResult r
    by (rule assign_return_of[OF s slot_of_handleResult])
qed

lemma rv_inv_handleError:
  assumes "rv_inv hs st" "results st n = None" "errors st n = None"
  shows "rv_inv hs (handleError hs n e st)"
proof -
  from assms(2,3) have s: "slot_of hs st n = None" by (simp add: slot_of_def)
  from assms(1) have r: "returnValue st = return_of hs st" by (simp add: rv_inv_def)
  show ?thesis
  proof (cases hs)
    case True
    have "slot_of hs (handleError hs n e st) = (slot_of hs st)(n \<mapsto> StatusRejected e)"
      using slot_of_handleError[OF assms(2), of hs hs e] True by simp
    from assign_return_of[OF s this] True show ?thesis
      by (simp add: rv_inv_def returnValue_handleError r)
  next
    case False
    have "slot_of hs (handleError hs n e st) = slot_of hs st"
      using slot_of_handleError[OF assms(2), of hs hs e] False s by (simp add: fun_eq_iff)
    with False show ?thesis
      by (simp add: rv_inv_def returnValue_handleError r return_of_def)
  qed
qed

lemma rv_inv_try_end:
  assumes "rv_inv hs st" "results st n = None" "errors st n = None"
  shows "rv_inv hs (try_end hs n v st)"
proof -
  have "rv_inv hs (try_end hs n v st) = rv_inv hs (handleResult hs n v st)"
    by (rule rv_inv_cong) (simp_all add: try_end_def Let_def)
  with rv_inv_handleResult[OF assms] show ?thesis by simp
qed

lemma rv_inv_catch_block:
  assumes "rv_inv hs st" "results st n = None" "errors st n = None"
  shows "rv_inv hs (catch_block hs n e st)"
proof -
  have "rv_inv hs (catch_block hs n e st) = rv_inv hs (handleError hs n e st)"
    by (rule rv_inv_cong) (simp_all add: catch_block_def Let_def)
  with rv_inv_handleError[OF assms] show ?thesis by simp
qed

lemma rv_inv_advance:
  assumes "run_inv hs st" "rv_inv hs st"
  shows "rv_inv hs (advance hs tasks n st)"
proof (cases rule: advance_cases[of hs tasks n st])
  case quiet
  have "rv_inv hs (advance hs tasks n st) = rv_inv hs st"
    by (rule rv_inv_cong) (simp_all add: quiet)
  with assms(2) show ?thesis by simp
next
  case (fulfilled v)
  from assms(1) have "unit_ok hs st n" by (simp add: run_inv_def)
  from unit_ok_running[OF this] fulfilled(1) have "results st n = None" "errors st n = None"
    by simp_all
  from rv_inv_try_end[OF assms(2) this] fulfilled(2) show ?thesis by simp
next
  case (failed e)
  from assms(1) have "unit_ok hs st n" by (simp add: run_inv_def)
  from unit_ok_running[OF this] failed(1) have "results st n = None" "errors st n = None"
    by simp_all
  from rv_inv_catch_block[OF assms(2) this] failed(2) show ?thesis by simp
qed

lemma rv_inv_aggregate: "rv_inv hs (aggregate hs' ks st) = rv_inv hs st"
  by (rule rv_inv_cong) simp_all

lemma rv_inv_step: "run_inv hs st \<Longrightarrow> rv_inv hs st \<Longrightarrow> rv_inv hs (step hs tasks n st)"
  by (simp add: step_def rv_inv_aggregate rv_inv_advance)

lemma rv_inv_task_start:
  assumes "run_inv hs st" "promises st n = None" "rv_inv hs st"
  shows "rv_inv hs (task_start hs tasks n st)"
proof -
  from assms(1) have "unit_ok hs st n" by (simp add: run_inv_def)
  from unit_ok_fresh[OF this assms(2)] have fr: "results st n = None" "errors st n = None"
    by simp_all
  have c: "rv_inv hs (catch_block hs n e st)" for e
    by (rule rv_inv_catch_block[OF assms(3) fr])
  show ?thesis
  proof (cases "map_of (own tasks) n")
    case None
    with c show ?thesis by (simp add: task_start_def)
  next
    case (Some en)
    show ?thesis
    proof (cases en)
      case NotCallable
      with Some c show ?thesis by (simp add: task_start_def)
    next
      case (Callable taskFn)
      let ?s0 = "st\<lparr>calls := calls st @ [n]\<rparr>"
      obtain b st1 where r: "run_body tasks n taskFn ?s0 = (b, st1)"
        by (cases "run_body tasks n taskFn ?s0")
      have f: "results st1 = results st" "errors st1 = errors st" "returnValue st1 = returnValue st"
        using run_body_frame[of tasks n taskFn ?s0] r by simp_all
      have "rv_inv hs st1 = rv_inv hs st" by (rule rv_inv_cong) (simp_all add: f)
      with assms(3) have i1: "rv_inv hs st1" by simp
      let ?s2 = "st1\<lparr>units := (units st1)(n \<mapsto> b), promises := (promises st1)(n \<mapsto> TaskPending)\<rparr>"
      have "rv_inv hs ?s2 = rv_inv hs st1" by (rule rv_inv_cong) simp_all
      with i1 have i2: "rv_inv hs ?s2" by simp
      have i3: "rv_inv hs (catch_block hs n e st1)" for e
        by (rule rv_inv_catch_block[OF i1]) (simp_all add: f fr)
      show ?thesis
        using Some Callable r i2 i3
        by (cases b) (simp_all add: task_start_def)
    qed
  qed
qed

lemma rv_inv_launch:
  "distinct ks \<Longrightarrow> run_inv hs st \<Longrightarrow> \<forall>k \<in> set ks. promises st k = None \<Longrightarrow> rv_inv hs st \<Longrightarrow>
     rv_inv hs (fold (task_start hs tasks) ks st)"
proof (induction ks arbitrary: st)
  case Nil
  then show ?case by simp
next
  case (Cons k ks)
  let ?s = "task_start hs tasks k st"
  from Cons.prems have pk: "promises st k = None" by simp
  have 1: "run_inv hs ?s" by (rule run_inv_task_start[OF Cons.prems(2) pk])
  have 2: "rv_inv hs ?s" by (rule rv_inv_task_start[OF Cons.prems(2) pk Cons.prems(4)])
  have 3: "\<forall>x \<in> set ks. promises ?s x = None"
  proof
    fix x assume x: "x \<in> set ks"
    with Cons.prems(1) have "x \<noteq> k" by auto
    from promises_task_start_other[OF this, of hs tasks st] x Cons.prems(3)
    show "promises ?s x = None" by simp
  qed
  from Cons.prems(1) have 4: "distinct ks" by simp
  from Cons.IH[OF 4 1 3 2] show ?case by simp
qed

lemma rv_inv_initial: "rv_inv hs initial"
  by (simp add: rv_inv_def return_of_def slot_of_def initial_def empty_object_def fun_eq_iff)

lemma rv_inv_fold_step:
  "run_inv hs st \<Longrightarrow> rv_inv hs st \<Longrightarrow> rv_inv hs (fold (step hs tasks) schedule st)"
  by (induction schedule arbitrary: st) (simp_all add: run_inv_step rv_inv_step)

lemma rv_inv_run: "rv_inv hs (run hs tasks schedule)"
proof -
  have "rv_inv hs (fold (task_start hs tasks) (Object_keys tasks) initial)"
    by (rule rv_inv_launch[OF distinct_Object_keys run_inv_initial _ rv_inv_initial])
      (simp add: promises_initial)
  then have "rv_inv hs (executeTasksInternal tasks hs)"
    by (simp add: executeTasksInternal_def rv_inv_aggregate)
  with executeTasksInternal_inv[of hs tasks] show ?thesis
    unfolding run_def by (intro rv_inv_fold_step) simp_all
qed

lemma returnValue_run:
  "props (returnValue (run hs tasks schedule)) n =
     (if n = ''__proto__'' then None else slot_of hs (run hs tasks schedule) n)"
  "proto (returnValue (run hs tasks schedule)) =
     (case slot_of hs (run hs tasks schedule) ''__proto__'' of
        Some s \<Rightarrow> if object_or_null s then Some s else None
      | None \<Rightarrow> None)"
  using rv_inv_run[of hs tasks schedule] by (simp_all add: rv_inv_def return_of_def)

lemma resolved_with_plain: "thenable obj = None \<Longrightarrow> resolved_with obj = CallResolved obj"
  by (simp add: resolved_with_def)

lemma settle_all_not_thenable: "thenable (returnValue (run True tasks schedule)) = None"
  by (simp add: thenable_def returnValue_run(1) slot_of_def split: option.splits)

lemma settle_all_never_rejected: "joined (run True tasks schedule) \<noteq> CallRejected e"
  by (simp add: joined_run expected_def resolved_with_plain settle_all_not_thenable)

section \<open>Aggregation\<close>

lemma unit_fulfilled:
  assumes "run_inv hs st" "results st n = Some v"
  shows "promises st n = Some TaskFulfilled" "errors st n = None" "units st n = None"
proof -
  from assms(1) have u: "unit_ok hs st n" by (simp add: run_inv_def)
  have p: "promises st n = Some TaskFulfilled"
  proof (cases "promises st n")
    case None
    with u assms(2) show ?thesis by (simp add: unit_ok_def)
  next
    case (Some p)
    with u assms(2) show ?thesis by (cases p) (simp_all add: unit_ok_def)
  qed
  then show "promises st n = Some TaskFulfilled" .
  from p u assms(2) show "errors st n = None" by (auto simp: unit_ok_def)
  from p u show "units st n = None" by (simp add: unit_ok_def)
qed

lemma unit_failed:
  assumes "run_inv hs st" "errors st n = Some e"
  shows "promises st n = Some (if hs then TaskFulfilled else TaskRejected e)"
    "results st n = None" "units st n = None" "n \<in> set (settled st)"
proof -
  from assms(1) have u: "unit_ok hs st n" by (simp add: run_inv_def)
  have p: "promises st n = Some (if hs then TaskFulfilled else TaskRejected e)"
  proof (cases "promises st n")
    case None
    with u assms(2) show ?thesis by (simp add: unit_ok_def)
  next
    case (Some p)
    with u assms(2) show ?thesis by (cases p) (auto simp: unit_ok_def)
  qed
  then show "promises st n = Some (if hs then TaskFulfilled else TaskRejected e)" .
  from p u assms(2) show "results st n = None" by (cases hs) (auto simp: unit_ok_def)
  from p u assms(2) show "units st n = None" by (cases hs) (auto simp: unit_ok_def)
  from p u assms(2) show "n \<in> set (settled st)" by (cases hs) (auto simp: unit_ok_def)
qed

lemma only_keys:
  assumes "run_inv hs st" "launched tasks st" "n \<notin> set (Object_keys tasks)"
  shows "n \<notin> set (settled st)" "results st n = None" "errors st n = None"
proof -
  from assms(1) have u: "unit_ok hs st n" by (simp add: run_inv_def)
  from assms(2,3) have "promises st n = None" by (simp add: launched_def)
  from unit_ok_fresh[OF u this]
  show "n \<notin> set (settled st)" "results st n = None" "errors st n = None"
    by simp_all
qed

lemma all_results_joined:
  assumes "\<forall>n \<in> set (Object_keys tasks). results (run hs tasks schedule) n \<noteq> None"
  shows "joined (run hs tasks schedule) = resolved_with (returnValue (run hs tasks schedule))"
proof -
  let ?st = "run hs tasks schedule"
  note i = run_inv_run[where hs=hs and tasks=tasks and schedule=schedule]
  have k: "\<And>n. n \<in> set (Object_keys tasks) \<Longrightarrow> \<exists>v. results ?st n = Some v"
    using assms by auto
  have af: "all_fulfilled tasks ?st"
    unfolding all_fulfilled_def using k unit_fulfilled(1)[OF i(1)] by blast
  have "\<forall>n \<in> set (settled ?st). errors ?st n = None"
  proof
    fix n assume "n \<in> set (settled ?st)"
    with only_keys(1)[OF i] have "n \<in> set (Object_keys tasks)" by blast
    from k[OF this] unit_fulfilled(2)[OF i(1)] show "errors ?st n = None" by blast
  qed
  then have "first_failure ?st = None" by (simp add: first_failure_None_iff)
  with af show ?thesis by (simp add: joined_run expected_def)
qed

lemma all_settled_joined:
  assumes "\<forall>n \<in> set (Object_keys tasks).
     results (run True tasks schedule) n \<noteq> None \<or> errors (run True tasks schedule) n \<noteq> None"
  shows "joined (run True tasks schedule) = CallResolved (returnValue (run True tasks schedule))"
proof -
  let ?st = "run True tasks schedule"
  note i = run_inv_run[where hs=True and tasks=tasks and schedule=schedule]
  have "promises ?st n = Some TaskFulfilled" if "n \<in> set (Object_keys tasks)" for n
  proof (cases "results ?st n")
    case (Some v)
    from unit_fulfilled(1)[OF i(1) Some] show ?thesis .
  next
    case None
    with assms that obtain e where e: "errors ?st n = Some e" by auto
    from unit_failed(1)[OF i(1) e] show ?thesis by simp
  qed
  then have "all_fulfilled tasks ?st" by (simp add: all_fulfilled_def)
  then show ?thesis
    by (simp add: joined_run expected_def resolved_with_plain settle_all_not_thenable)
qed

lemma pending_while_unsettled:
  assumes "n \<in> set (Object_keys tasks)" "results (run hs tasks schedule) n = None"
    "errors (run hs tasks schedule) n = None"
    "hs \<or> (\<forall>m. errors (run hs tasks schedule) m = None)"
  shows "joined (run hs tasks schedule) = CallPending"
proof -
  let ?st = "run hs tasks schedule"
  note i = run_inv_run[where hs=hs and tasks=tasks and schedule=schedule]
  from i(1) have u: "unit_ok hs ?st n" by (simp add: run_inv_def)
  from u assms(2,3) have "promises ?st n \<noteq> Some TaskFulfilled" by (auto simp: unit_ok_def)
  with assms(1) have na: "\<not> all_fulfilled tasks ?st" by (auto simp: all_fulfilled_def)
  from assms(4) have "hs \<or> first_failure ?st = None"
    by (auto simp: first_failure_None_iff)
  with na show ?thesis by (auto simp: joined_run expected_def)
qed

lemma own_properties:
  assumes "\<forall>n \<in> set (Object_keys tasks). slot_of hs (run hs tasks schedule) n \<noteq> None"
  shows "dom (props (returnValue (run hs tasks schedule))) = set (Object_keys tasks) - {''__proto__''}"
proof -
  let ?st = "run hs tasks schedule"
  note i = run_inv_run[where hs=hs and tasks=tasks and schedule=schedule]
  have o: "slot_of hs ?st n = None" if "n \<notin> set (Object_keys tasks)" for n
    using only_keys(2,3)[OF i that] by (simp add: slot_of_def)
  show ?thesis
  proof (intro set_eqI iffI)
    fix x assume "x \<in> dom (props (returnValue ?st))"
    then have x: "x \<noteq> ''__proto__''" "slot_of hs ?st x \<noteq> None"
      by (auto simp: dom_def returnValue_run(1) split: if_splits)
    have "x \<in> set (Object_keys tasks)"
    proof (rule ccontr)
      assume "x \<notin> set (Object_keys tasks)"
      from o[OF this] x(2) show False by simp
    qed
    with x(1) show "x \<in> set (Object_keys tasks) - {''__proto__''}" by simp
  next
    fix x assume "x \<in> set (Object_keys tasks) - {''__proto__''}"
    with assms show "x \<in> dom (props (returnValue ?st))"
      by (auto simp: dom_def returnValue_run(1))
  qed
qed

lemma fail_fast_rejects:
  assumes "errors (run False tasks schedule) n = Some e"
  shows "\<exists>e'. first_failure (run False tasks schedule) = Some e' \<and>
     joined (run False tasks schedule) = CallRejected e'"
proof -
  let ?st = "run False tasks schedule"
  from unit_failed(4)[OF run_inv_run(1) assms] assms
  have "\<not> (\<forall>n \<in> set (settled ?st). errors ?st n = None)" by auto
  then have "first_failure ?st \<noteq> None" by (simp add: first_failure_None_iff)
  then obtain e' where "first_failure ?st = Some e'" by auto
  then show ?thesis by (simp add: joined_run expected_def)
qed

text \<open>
  What \<^verbatim>\<open>all\<close> does on task sets where no own key is \<^verbatim>\<open>__proto__\<close> and the task
  \<^verbatim>\<open>then\<close>, if there is one, does not yield a function: the call stays pending while no
  task has failed and some task has not settled; it is resolved with an object whose own
  properties are exactly the keys of the task set, each holding the raw result, once every
  task has its result; and it is rejected with the error of the task that failed first as
  soon as a task has failed.
\<close>

lemma fail_fast_ordinary_keys:
  assumes "''__proto__'' \<notin> set (Object_keys tasks)"
    "\<forall>r. results (run False tasks schedule) ''then'' \<noteq> Some (Fn r)"
  shows "(\<forall>n \<in> set (Object_keys tasks). results (run False tasks schedule) n \<noteq> None) \<longrightarrow>
      (\<exists>m. all_call tasks schedule = CallResolved m \<and> dom (props m) = set (Object_keys tasks) \<and>
         proto m = None \<and>
         (\<forall>n \<in> set (Object_keys tasks).
            props m n = Some (Raw (the (results (run False tasks schedule) n)))))"
    "(\<exists>n \<in> set (Object_keys tasks). errors (run False tasks schedule) n \<noteq> None) \<longrightarrow>
      (\<exists>e. first_failure (run False tasks schedule) = Some e \<and>
         all_call tasks schedule = CallRejected e)"
    "(\<forall>n. errors (run False tasks schedule) n = None) \<and>
     (\<exists>n \<in> set (Object_keys tasks). results (run False tasks schedule) n = None) \<longrightarrow>
        all_call tasks schedule = CallPending"
proof -
  let ?st = "run False tasks schedule"
  note i = run_inv_run[where hs=False and tasks=tasks and schedule=schedule]
  show "(\<forall>n \<in> set (Object_keys tasks). results ?st n \<noteq> None) \<longrightarrow>
      (\<exists>m. all_call tasks schedule = CallResolved m \<and> dom (props m) = set (Object_keys tasks) \<and>
         proto m = None \<and>
         (\<forall>n \<in> set (Object_keys tasks). props m n = Some (Raw (the (results ?st n)))))"
  proof
    assume a: "\<forall>n \<in> set (Object_keys tasks). results ?st n \<noteq> None"
    have t: "thenable (returnValue ?st) = None"
      using assms(2)
      by (auto simp: thenable_def returnValue_run(1) slot_of_def
          split: option.splits slot.splits jsval.splits)
    from all_results_joined[OF a] t have 1: "all_call tasks schedule = CallResolved (returnValue ?st)"
      by (simp add: all_call_def resolved_with_plain)
    from a have s: "\<forall>n \<in> set (Object_keys tasks). slot_of False ?st n \<noteq> None"
      by (auto simp: slot_of_def)
    from own_properties[OF s] assms(1)
    have 2: "dom (props (returnValue ?st)) = set (Object_keys tasks)" by simp
    from only_keys(2,3)[OF i assms(1)] have 3: "proto (returnValue ?st) = None"
      by (simp add: returnValue_run(2) slot_of_def)
    have 4: "\<forall>n \<in> set (Object_keys tasks). props (returnValue ?st) n = Some (Raw (the (results ?st n)))"
    proof
      fix n assume n: "n \<in> set (Object_keys tasks)"
      with assms(1) have "n \<noteq> ''__proto__''" by auto
      moreover from a n obtain v where "results ?st n = Some v" by auto
      ultimately show "props (returnValue ?st) n = Some (Raw (the (results ?st n)))"
        by (simp add: returnValue_run(1) slot_of_def)
    qed
    from 1 2 3 4 show "\<exists>m. all_call tasks schedule = CallResolved m \<and>
         dom (props m) = set (Object_keys tasks) \<and> proto m = None \<and>
         (\<forall>n \<in> set (Object_keys tasks). props m n = Some (Raw (the (results ?st n))))"
      by blast
  qed
  show "(\<exists>n \<in> set (Object_keys tasks). errors ?st n \<noteq> None) \<longrightarrow>
      (\<exists>e. first_failure ?st = Some e \<and> all_call tasks schedule = CallRejected e)"
  proof
    assume "\<exists>n \<in> set (Object_keys tasks). errors ?st n \<noteq> None"
    then obtain n e where "errors ?st n = Some e" by auto
    from fail_fast_rejects[OF this]
    show "\<exists>e. first_failure ?st = Some e \<and> all_call tasks schedule = CallRejected e"
      by (simp add: all_call_def)
  qed
  show "(\<forall>n. errors ?st n = None) \<and> (\<exists>n \<in> set (Object_keys tasks). results ?st n = None) \<longrightarrow>
        all_call tasks schedule = CallPending"
  proof
    assume a: "(\<forall>n. errors ?st n = None) \<and> (\<exists>n \<in> set (Object_keys tasks). results ?st n = None)"
    then obtain n where n: "n \<in> set (Object_keys tasks)" "results ?st n = None" by auto
    from a have "errors ?st n = None" "False \<or> (\<forall>m. errors ?st m = None)" by simp_all
    from pending_while_unsettled[OF n this] show "all_call tasks schedule = CallPending"
      by (simp add: all_call_def)
  qed
qed

text \<open>
  What \<^verbatim>\<open>allSettled\<close> does on task sets where no own key is \<^verbatim>\<open>__proto__\<close>: the call is
  never rejected; it stays pending while some task has not settled; and once every task
  has settled it is resolved with an object whose own properties are exactly the keys of
  the task set, each holding the descriptor of its task.
\<close>

lemma settle_all_ordinary_keys:
  assumes "''__proto__'' \<notin> set (Object_keys tasks)"
  shows "allSettled tasks schedule \<noteq> CallRejected e"
    "(\<forall>n \<in> set (Object_keys tasks).
          results (run True tasks schedule) n \<noteq> None \<or> errors (run True tasks schedule) n \<noteq> None) \<longrightarrow>
      (\<exists>m. allSettled tasks schedule = CallResolved m \<and> dom (props m) = set (Object_keys tasks) \<and>
         proto m = None \<and>
         (\<forall>n \<in> set (Object_keys tasks).
            props m n = (case results (run True tasks schedule) n of
                     Some v \<Rightarrow> Some (StatusFulfilled v)
                   | None \<Rightarrow> Some (StatusRejected (the (errors (run True tasks schedule) n))))))"
    "(\<exists>n \<in> set (Object_keys tasks).
          results (run True tasks schedule) n = None \<and> errors (run True tasks schedule) n = None) \<longrightarrow>
        allSettled tasks schedule = CallPending"
proof -
  let ?st = "run True tasks schedule"
  note i = run_inv_run[where hs=True and tasks=tasks and schedule=schedule]
  show "allSettled tasks schedule \<noteq> CallRejected e"
    by (simp add: allSettled_def settle_all_never_rejected)
  show "(\<forall>n \<in> set (Object_keys tasks). results ?st n \<noteq> None \<or> errors ?st n \<noteq> None) \<longrightarrow>
      (\<exists>m. allSettled tasks schedule = CallResolved m \<and> dom (props m) = set (Object_keys tasks) \<and>
         proto m = None \<and>
         (\<forall>n \<in> set (Object_keys tasks).
            props m n = (case results ?st n of
                     Some v \<Rightarrow> Some (StatusFulfilled v)
                   | None \<Rightarrow> Some (StatusRejected (the (errors ?st n))))))"
  proof
    assume a: "\<forall>n \<in> set (Object_keys tasks). results ?st n \<noteq> None \<or> errors ?st n \<noteq> None"
    from all_settled_joined[OF a] have 1: "allSettled tasks schedule = CallResolved (returnValue ?st)"
      by (simp add: allSettled_def)
    from a have s: "\<forall>n \<in> set (Object_keys tasks). slot_of True ?st n \<noteq> None"
      by (auto simp: slot_of_def split: option.splits)
    from own_properties[OF s] assms(1)
    have 2: "dom (props (returnValue ?st)) = set (Object_keys tasks)" by simp
    from only_keys(2,3)[OF i assms(1)] have 3: "proto (returnValue ?st) = None"
      by (simp add: returnValue_run(2) slot_of_def)
    have 4: "\<forall>n \<in> set (Object_keys tasks). props (returnValue ?st) n =
        (case results ?st n of
           Some v \<Rightarrow> Some (StatusFulfilled v)
         | None \<Rightarrow> Some (StatusRejected (the (errors ?st n))))"
    proof
      fix n assume n: "n \<in> set (Object_keys tasks)"
      with assms(1) have "n \<noteq> ''__proto__''" by auto
      with a n show "props (returnValue ?st) n =
        (case results ?st n of
           Some v \<Rightarrow> Some (StatusFulfilled v)
         | None \<Rightarrow> Some (StatusRejected (the (errors ?st n))))"
        by (auto simp: returnValue_run(1) slot_of_def split: option.splits)
    qed
    from 1 2 3 4 show "\<exists>m. allSettled tasks schedule = CallResolved m \<and>
         dom (props m) = set (Object_keys tasks) \<and> proto m = None \<and>
         (\<forall>n \<in> set (Object_keys tasks).
            props m n = (case results ?st n of
                     Some v \<Rightarrow> Some (StatusFulfilled v)
                   | None \<Rightarrow> Some (StatusRejected (the (errors ?st n)))))"
      by blast
  qed
  show "(\<exists>n \<in> set (Object_keys tasks). results ?st n = None \<and> errors ?st n = None) \<longrightarrow>
        allSettled tasks schedule = CallPending"
  proof
    assume "\<exists>n \<in> set (Object_keys tasks). results ?st n = None \<and> errors ?st n = None"
    then obtain n where n: "n \<in> set (Object_keys tasks)" "results ?st n = None" "errors ?st n = None"
      by auto
    from pending_while_unsettled[OF n] show "allSettled tasks schedule = CallPending"
      by (simp add: allSettled_def)
  qed
qed

lemma empty_task_set:
  assumes "own tasks = []"
  shows "joined (run hs tasks schedule) = CallResolved empty_object"
proof -
  let ?st = "run hs tasks schedule"
  from assms have k: "Object_keys tasks = []" by (simp add: Object_keys_def)
  note i = run_inv_run[where hs=hs and tasks=tasks and schedule=schedule]
  have s: "slot_of hs ?st n = None" for n
    using only_keys(2,3)[OF i, of n] k by (simp add: slot_of_def)
  from rv_inv_run[of hs tasks schedule] have rv: "returnValue ?st = empty_object"
    by (simp add: rv_inv_def return_of_def s empty_object_def fun_eq_iff)
  from k have "\<forall>n \<in> set (Object_keys tasks). results ?st n \<noteq> None" by simp
  from all_results_joined[OF this] show ?thesis
    by (simp add: rv resolved_with_def thenable_def empty_object_def)
qed

section \<open>The names \<^verbatim>\<open>__proto__\<close> and \<^verbatim>\<open>then\<close>\<close>

lemma fail_fast_resolved_object:
  assumes "\<forall>n \<in> set (Object_keys tasks). results (run False tasks schedule) n \<noteq> None"
    "\<forall>r. results (run False tasks schedule) ''then'' \<noteq> Some (Fn r)"
  shows "all_call tasks schedule = CallResolved (returnValue (run False tasks schedule))"
    "dom (props (returnValue (run False tasks schedule))) = set (Object_keys tasks) - {''__proto__''}"
proof -
  let ?st = "run False tasks schedule"
  have t: "thenable (returnValue ?st) = None"
    using assms(2)
    by (auto simp: thenable_def returnValue_run(1) slot_of_def
        split: option.splits slot.splits jsval.splits)
  from all_results_joined[OF assms(1)] t
  show "all_call tasks schedule = CallResolved (returnValue ?st)"
    by (simp add: all_call_def resolved_with_plain)
  from assms(1) have "\<forall>n \<in> set (Object_keys tasks). slot_of False ?st n \<noteq> None"
    by (auto simp: slot_of_def)
  from own_properties[OF this]
  show "dom (props (returnValue ?st)) = set (Object_keys tasks) - {''__proto__''}" .
qed

lemma settle_all_resolved_object:
  assumes "\<forall>n \<in> set (Object_keys tasks).
     results (run True tasks schedule) n \<noteq> None \<or> errors (run True tasks schedule) n \<noteq> None"
  shows "allSettled tasks schedule = CallResolved (returnValue (run True tasks schedule))"
    "dom (props (returnValue (run True tasks schedule))) = set (Object_keys tasks) - {''__proto__''}"
proof -
  let ?st = "run True tasks schedule"
  from all_settled_joined[OF assms]
  show "allSettled tasks schedule = CallResolved (returnValue ?st)"
    by (simp add: allSettled_def)
  from assms have "\<forall>n \<in> set (Object_keys tasks). slot_of True ?st n \<noteq> None"
    by (auto simp: slot_of_def split: option.splits)
  from own_properties[OF this]
  show "dom (props (returnValue ?st)) = set (Object_keys tasks) - {''__proto__''}" .
qed

lemma then_function_ignores:
  assumes "\<forall>n \<in> set (Object_keys tasks). results (run False tasks schedule) n \<noteq> None"
    "results (run False tasks schedule) ''then'' = Some (Fn Ignores)"
  shows "all_call tasks schedule = CallPending"
proof -
  let ?st = "run False tasks schedule"
  from assms(2) have "thenable (returnValue ?st) = Some Ignores"
    by (simp add: thenable_def returnValue_run(1) slot_of_def)
  with all_results_joined[OF assms(1)] show ?thesis
    by (simp add: all_call_def resolved_with_def)
qed

lemma proto_keys: "Object_keys proto_tasks = [''__proto__'', ''a'']"
  by code_simp

lemma then_keys: "Object_keys then_tasks = [''then'']"
  by code_simp

lemma proto_results_fail_fast:
  "results (run False proto_tasks [''__proto__'', ''a'']) ''__proto__'' = Some (Plain 1)"
  "results (run False proto_tasks [''__proto__'', ''a'']) ''a'' = Some (Plain 2)"
  "results (run False proto_tasks [''__proto__'', ''a'']) ''then'' = None"
  by code_simp+

lemma proto_results_settle_all:
  "results (run True proto_tasks [''__proto__'', ''a'']) ''__proto__'' = Some (Plain 1)"
  "results (run True proto_tasks [''__proto__'', ''a'']) ''a'' = Some (Plain 2)"
  "results (run True proto_tasks [''__proto__'', ''a'']) ''then'' = None"
  by code_simp+

lemma then_results:
  "results (run hs then_tasks ([''then''] @ later)) ''then'' = Some (Fn Ignores)"
proof -
  have f: "results (run False then_tasks [''then'']) ''then'' = Some (Fn Ignores)" by code_simp
  have t: "results (run True then_tasks [''then'']) ''then'' = Some (Fn Ignores)" by code_simp
  from f t have "results (run hs then_tasks [''then'']) ''then'' = Some (Fn Ignores)"
    by (cases hs) simp_all
  with fold_step_stable[OF run_inv_run(1)[of hs then_tasks "[''then'']"],
      where tasks=then_tasks and later=later and d="''then''" and v="Fn Ignores"]
    run_append[of hs then_tasks "[''then'']" later]
  show ?thesis by simp
qed

text \<open>
  Claim C3 at the names \<^verbatim>\<open>__proto__\<close> and \<^verbatim>\<open>then\<close>.  In the task set with the own keys
  \<^verbatim>\<open>__proto__\<close> and \<^verbatim>\<open>a\<close>, both tasks are fulfilled, with 1 and 2, and \<^verbatim>\<open>all\<close> resolves
  to an object whose only own property is \<^verbatim>\<open>a\<close> and whose prototype is untouched: the key
  \<^verbatim>\<open>__proto__\<close> and its result 1 are not in it.  In the task set whose single task
  \<^verbatim>\<open>then\<close> returns a function that calls neither of its arguments, the task is fulfilled
  and \<^verbatim>\<open>all\<close> stays pending for the rest of every run.
\<close>

theorem fail_fast_special_names:
  "Object_keys proto_tasks = [''__proto__'', ''a'']
   \<and> results (run False proto_tasks [''__proto__'', ''a'']) ''__proto__'' = Some (Plain 1)
   \<and> results (run False proto_tasks [''__proto__'', ''a'']) ''a'' = Some (Plain 2)
   \<and> (\<exists>m. all_call proto_tasks [''__proto__'', ''a''] = CallResolved m \<and> dom (props m) = {''a''} \<and>
         props m ''a'' = Some (Raw (Plain 2)) \<and> props m ''__proto__'' = None \<and> proto m = None)
   \<and> Object_keys then_tasks = [''then'']
   \<and> results (run False then_tasks ([''then''] @ later)) ''then'' = Some (Fn Ignores)
   \<and> all_call then_tasks ([''then''] @ later) = CallPending"
proof -
  let ?S = "[''__proto__'', ''a'']"
  let ?st = "run False proto_tasks ?S"
  note r = proto_results_fail_fast
  have a: "\<forall>n \<in> set (Object_keys proto_tasks). results ?st n \<noteq> None"
    unfolding proto_keys by (simp add: r)
  have b: "\<forall>r. results ?st ''then'' \<noteq> Some (Fn r)" by (simp add: r)
  note o = fail_fast_resolved_object[OF a b]
  have 1: "all_call proto_tasks ?S = CallResolved (returnValue ?st)" by (rule o(1))
  have 2: "dom (props (returnValue ?st)) = {''a''}"
    unfolding o(2) proto_keys by auto
  have 3: "props (returnValue ?st) ''a'' = Some (Raw (Plain 2))"
    by (simp add: returnValue_run(1) slot_of_def r)
  have 4: "props (returnValue ?st) ''__proto__'' = None"
    by (simp add: returnValue_run(1))
  have 5: "proto (returnValue ?st) = None"
    by (simp add: returnValue_run(2) slot_of_def r object_or_null_def)
  have p: "\<exists>m. all_call proto_tasks ?S = CallResolved m \<and> dom (props m) = {''a''} \<and>
         props m ''a'' = Some (Raw (Plain 2)) \<and> props m ''__proto__'' = None \<and> proto m = None"
    by (intro exI[of _ "returnValue ?st"] conjI 1 2 3 4 5)
  have t: "results (run False then_tasks ([''then''] @ later)) ''then'' = Some (Fn Ignores)"
    by (rule then_results)
  have "\<forall>n \<in> set (Object_keys then_tasks). results (run False then_tasks ([''then''] @ later)) n \<noteq> None"
    unfolding then_keys using t by simp
  from then_function_ignores[OF this t]
  have h: "all_call then_tasks ([''then''] @ later) = CallPending" .
  show ?thesis by (intro conjI proto_keys r(1) r(2) p then_keys t h)
qed

text \<open>
  Claim C4 at the name \<^verbatim>\<open>__proto__\<close>.  In the task set with the own keys \<^verbatim>\<open>__proto__\<close>
  and \<^verbatim>\<open>a\<close>, both tasks are fulfilled and \<^verbatim>\<open>allSettled\<close> resolves to an object whose
  only own property is \<^verbatim>\<open>a\<close>: the descriptor of the task \<^verbatim>\<open>__proto__\<close> is no entry of
  the object but has become its prototype.
\<close>

theorem settle_all_own_proto_name:
  "Object_keys proto_tasks = [''__proto__'', ''a'']
   \<and> results (run True proto_tasks [''__proto__'', ''a'']) ''__proto__'' = Some (Plain 1)
   \<and> results (run True proto_tasks [''__proto__'', ''a'']) ''a'' = Some (Plain 2)
   \<and> (\<exists>m. allSettled proto_tasks [''__proto__'', ''a''] = CallResolved m \<and> dom (props m) = {''a''} \<and>
         props m ''a'' = Some (StatusFulfilled (Plain 2)) \<and> props m ''__proto__'' = None \<and>
         proto m = Some (StatusFulfilled (Plain 1)))"
proof -
  let ?S = "[''__proto__'', ''a'']"
  let ?st = "run True proto_tasks ?S"
  note r = proto_results_settle_all
  have a: "\<forall>n \<in> set (Object_keys proto_tasks). results ?st n \<noteq> None \<or> errors ?st n \<noteq> None"
    unfolding proto_keys by (simp add: r)
  note o = settle_all_resolved_object[OF a]
  have 1: "allSettled proto_tasks ?S = CallResolved (returnValue ?st)" by (rule o(1))
  have 2: "dom (props (returnValue ?st)) = {''a''}"
    unfolding o(2) proto_keys by auto
  have 3: "props (returnValue ?st) ''a'' = Some (StatusFulfilled (Plain 2))"
    by (simp add: returnValue_run(1) slot_of_def r)
  have 4: "props (returnValue ?st) ''__proto__'' = None"
    by (simp add: returnValue_run(1))
  have 5: "proto (returnValue ?st) = Some (StatusFulfilled (Plain 1))"
    by (simp add: returnValue_run(2) slot_of_def r object_or_null_def)
  have p: "\<exists>m. allSettled proto_tasks ?S = CallResolved m \<and> dom (props m) = {''a''} \<and>
         props m ''a'' = Some (StatusFulfilled (Plain 2)) \<and> props m ''__proto__'' = None \<and>
         proto m = Some (StatusFulfilled (Plain 1))"
    by (intro exI[of _ "returnValue ?st"] conjI 1 2 3 4 5)
  show ?thesis by (intro conjI proto_keys r(1) r(2) p)
qed

text \<open>
  What holds of both entry points on task sets where no own key is \<^verbatim>\<open>__proto__\<close> and the
  task \<^verbatim>\<open>then\<close>, if there is one, does not yield a function: when every task has its
  result, \<^verbatim>\<open>all\<close> resolves to an object with the raw value \<^verbatim>\<open>v\<close> at each key exactly
  where \<^verbatim>\<open>allSettled\<close> resolves to one with the descriptor fulfilled with \<^verbatim>\<open>v\<close>.
\<close>

lemma entry_points_ordinary_keys:
  assumes "''__proto__'' \<notin> set (Object_keys tasks)"
    "\<forall>r. results (run False tasks schedule) ''then'' \<noteq> Some (Fn r)"
    "\<forall>n \<in> set (Object_keys tasks). results (run False tasks schedule) n \<noteq> None"
  shows "\<exists>m m'. all_call tasks schedule = CallResolved m \<and> allSettled tasks schedule = CallResolved m' \<and>
     dom (props m) = set (Object_keys tasks) \<and> dom (props m') = set (Object_keys tasks) \<and>
     proto m = None \<and> proto m' = None \<and>
     (\<forall>n \<in> set (Object_keys tasks). \<exists>v. props m n = Some (Raw v) \<and> props m' n = Some (StatusFulfilled v))"
proof -
  let ?f = "run False tasks schedule" and ?t = "run True tasks schedule"
  from same_core_run[of True tasks schedule False]
  have c: "results ?t = results ?f" by (simp add: same_core_def)
  from assms(3) c have a': "\<forall>n \<in> set (Object_keys tasks). results ?t n \<noteq> None \<or> errors ?t n \<noteq> None"
    by simp
  note f = fail_fast_resolved_object[OF assms(3,2)]
  note t = settle_all_resolved_object[OF a']
  note i = run_inv_run[where hs=False and tasks=tasks and schedule=schedule]
  note i' = run_inv_run[where hs=True and tasks=tasks and schedule=schedule]
  from f(2) assms(1) have 1: "dom (props (returnValue ?f)) = set (Object_keys tasks)" by simp
  from t(2) assms(1) have 2: "dom (props (returnValue ?t)) = set (Object_keys tasks)" by simp
  from only_keys(2,3)[OF i assms(1)] have 3: "proto (returnValue ?f) = None"
    by (simp add: returnValue_run(2) slot_of_def)
  from only_keys(2,3)[OF i' assms(1)] have 4: "proto (returnValue ?t) = None"
    by (simp add: returnValue_run(2) slot_of_def)
  have 5: "\<forall>n \<in> set (Object_keys tasks). \<exists>v. props (returnValue ?f) n = Some (Raw v) \<and>
      props (returnValue ?t) n = Some (StatusFulfilled v)"
  proof
    fix n assume n: "n \<in> set (Object_keys tasks)"
    with assms(1) have "n \<noteq> ''__proto__''" by auto
    moreover from assms(3) n obtain v where "results ?f n = Some v" by auto
    ultimately show "\<exists>v. props (returnValue ?f) n = Some (Raw v) \<and>
      props (returnValue ?t) n = Some (StatusFulfilled v)"
      by (simp add: returnValue_run(1) slot_of_def c)
  qed
  show ?thesis
    by (intro exI[of _ "returnValue ?f"] exI[of _ "returnValue ?t"] conjI f(1) t(1) 1 2 3 4 5)
qed

text \<open>
  Claim C9 at the names \<^verbatim>\<open>__proto__\<close> and \<^verbatim>\<open>then\<close>.  On every task set and schedule
  the two entry points go through the same results, errors, promises, wait graph and
  calls.  But with the own keys \<^verbatim>\<open>__proto__\<close> and \<^verbatim>\<open>a\<close>, both fulfilled, neither object
  has an own property \<^verbatim>\<open>__proto__\<close>: the object of \<^verbatim>\<open>all\<close> has lost the value 1, and the
  object of \<^verbatim>\<open>allSettled\<close> has the descriptor of 1 as its prototype.  And with the single
  task \<^verbatim>\<open>then\<close> that returns a function which calls neither of its arguments,
  \<^verbatim>\<open>allSettled\<close> resolves to an object with the descriptor at \<^verbatim>\<open>then\<close> while \<^verbatim>\<open>all\<close>
  is still pending.
\<close>

theorem entry_points_special_names:
  "results (run True tasks schedule) = results (run False tasks schedule)
   \<and> errors (run True tasks schedule) = errors (run False tasks schedule)
   \<and> heap (run True tasks schedule) = heap (run False tasks schedule)
   \<and> waitingFor (run True tasks schedule) = waitingFor (run False tasks schedule)
   \<and> calls (run True tasks schedule) = calls (run False tasks schedule)
   \<and> results (run False proto_tasks [''__proto__'', ''a'']) ''__proto__'' = Some (Plain 1)
   \<and> (\<exists>m m'. all_call proto_tasks [''__proto__'', ''a''] = CallResolved m \<and>
         allSettled proto_tasks [''__proto__'', ''a''] = CallResolved m' \<and>
         props m ''__proto__'' = None \<and> proto m = None \<and>
         props m' ''__proto__'' = None \<and> proto m' = Some (StatusFulfilled (Plain 1)))
   \<and> results (run False then_tasks ([''then''] @ later)) ''then'' = Some (Fn Ignores)
   \<and> all_call then_tasks ([''then''] @ later) = CallPending
   \<and> (\<exists>m'. allSettled then_tasks ([''then''] @ later) = CallResolved m' \<and>
         props m' ''then'' = Some (StatusFulfilled (Fn Ignores)))"
proof -
  from same_core_run[of True tasks schedule False]
  have c: "results (run True tasks schedule) = results (run False tasks schedule)"
    "errors (run True tasks schedule) = errors (run False tasks schedule)"
    "heap (run True tasks schedule) = heap (run False tasks schedule)"
    "waitingFor (run True tasks schedule) = waitingFor (run False tasks schedule)"
    "calls (run True tasks schedule) = calls (run False tasks schedule)"
    by (simp_all add: same_core_def)
  let ?S = "[''__proto__'', ''a'']"
  let ?f = "run False proto_tasks ?S" and ?t = "run True proto_tasks ?S"
  note rf = proto_results_fail_fast and rt = proto_results_settle_all
  have a: "\<forall>n \<in> set (Object_keys proto_tasks). results ?f n \<noteq> None"
    unfolding proto_keys by (simp add: rf)
  have b: "\<forall>r. results ?f ''then'' \<noteq> Some (Fn r)" by (simp add: rf)
  have a': "\<forall>n \<in> set (Object_keys proto_tasks). results ?t n \<noteq> None \<or> errors ?t n \<noteq> None"
    unfolding proto_keys by (simp add: rt)
  have 1: "all_call proto_tasks ?S = CallResolved (returnValue ?f)"
    by (rule fail_fast_resolved_object(1)[OF a b])
  have 2: "allSettled proto_tasks ?S = CallResolved (returnValue ?t)"
    by (rule settle_all_resolved_object(1)[OF a'])
  have 3: "props (returnValue ?f) ''__proto__'' = None" "props (returnValue ?t) ''__proto__'' = None"
    by (simp_all add: returnValue_run(1))
  have 4: "proto (returnValue ?f) = None"
    by (simp add: returnValue_run(2) slot_of_def rf object_or_null_def)
  have 5: "proto (returnValue ?t) = Some (StatusFulfilled (Plain 1))"
    by (simp add: returnValue_run(2) slot_of_def rt object_or_null_def)
  have p: "\<exists>m m'. all_call proto_tasks ?S = CallResolved m \<and>
         allSettled proto_tasks ?S = CallResolved m' \<and>
         props m ''__proto__'' = None \<and> proto m = None \<and>
         props m' ''__proto__'' = None \<and> proto m' = Some (StatusFulfilled (Plain 1))"
    by (intro exI[of _ "returnValue ?f"] exI[of _ "returnValue ?t"] conjI 1 2 3 4 5)
  let ?T = "[''then''] @ later"
  have t: "results (run False then_tasks ?T) ''then'' = Some (Fn Ignores)"
    "results (run True then_tasks ?T) ''then'' = Some (Fn Ignores)"
    by (rule then_results)+
  have "\<forall>n \<in> set (Object_keys then_tasks). results (run False then_tasks ?T) n \<noteq> None"
    unfolding then_keys using t(1) by simp
  from then_function_ignores[OF this t(1)]
  have h: "all_call then_tasks ?T = CallPending" .
  have "\<forall>n \<in> set (Object_keys then_tasks).
      results (run True then_tasks ?T) n \<noteq> None \<or> errors (run True then_tasks ?T) n \<noteq> None"
    unfolding then_keys using t(2) by simp
  from settle_all_resolved_object(1)[OF this]
  have 6: "allSettled then_tasks ?T = CallResolved (returnValue (run True then_tasks ?T))" .
  have 7: "props (returnValue (run True then_tasks ?T)) ''then'' = Some (StatusFulfilled (Fn Ignores))"
    using t(2) by (simp add: returnValue_run(1) slot_of_def)
  have q: "\<exists>m'. allSettled then_tasks ?T = CallResolved m' \<and>
         props m' ''then'' = Some (StatusFulfilled (Fn Ignores))"
    by (intro exI[of _ "returnValue (run True then_tasks ?T)"] conjI 6 7)
  show ?thesis by (intro conjI c rf(1) p t(1) h q)
qed

section \<open>An entry that is not a function\<close>





















end
